theory Spec2Isabelle
  imports Main
begin

section \<open>Idempotency guard: the webhook\_events table and the middleware\<close>

text \<open>
  The table \<^verbatim>\<open>webhook_events\<close> of \<^verbatim>\<open>config/init-db.js\<close>: an auto-increment primary key,
  a UNIQUE event identifier, the status enumeration, the retry counter and the completion
  timestamp. The columns \<^verbatim>\<open>created_at\<close> and \<^verbatim>\<open>updated_at\<close> are never read by the code and
  are left out. Event identifiers are strings, compared by equality.
\<close>

datatype ev_status = pending | processed | failed

datatype jsdata = JUndefined | JNull | JObject "(string \<times> string) list"

record webhook_body =
  event_id :: "string option"
  event_type :: "string option"
  data :: jsdata

record row =
  rid :: nat
  r_event_id :: string
  r_event_type :: string
  payload :: webhook_body
  status :: ev_status
  retry_count :: nat
  processed_at :: "nat option"

record db =
  rows :: "row list"
  next_id :: nat

datatype sql_error = ER_DUP_ENTRY | ER_OTHER

text \<open>
  Every \<^verbatim>\<open>pool.query\<close> may reject. The argument \<open>fault\<close> is the error the driver raises
  for reasons outside the table (connection lost, timeout, ...); with \<open>None\<close> the statement
  runs on the table, and the only error left is the one the UNIQUE constraint raises.
\<close>

definition select_by_event_id :: "sql_error option \<Rightarrow> db \<Rightarrow> string \<Rightarrow> sql_error + row list" where
  "select_by_event_id fault d eid =
     (case fault of
        Some err \<Rightarrow> Inl err
      | None \<Rightarrow> Inr (filter (\<lambda>r. r_event_id r = eid) (rows d)))"

definition insert_pending ::
  "sql_error option \<Rightarrow> db \<Rightarrow> string \<Rightarrow> string \<Rightarrow> webhook_body \<Rightarrow> sql_error + (db \<times> nat)" where
  "insert_pending fault d eid ty p =
     (case fault of
        Some err \<Rightarrow> Inl err
      | None \<Rightarrow>
          if eid \<in> r_event_id ` set (rows d) then Inl ER_DUP_ENTRY
          else Inr (d\<lparr>rows := rows d @
                        [\<lparr>rid = next_id d, r_event_id = eid, r_event_type = ty, payload = p,
                          status = pending, retry_count = 0, processed_at = None\<rparr>],
                      next_id := Suc (next_id d)\<rparr>,
                    next_id d))"

text \<open>
  \<^verbatim>\<open>UPDATE webhook_events SET ... WHERE id = ?\<close>. The key is optional because the caller
  may pass JavaScript's \<^verbatim>\<open>undefined\<close>, which \<^verbatim>\<open>pool.query\<close> sends as SQL \<^verbatim>\<open>NULL\<close>:
  the comparison \<^verbatim>\<open>id = NULL\<close> holds for no row.
\<close>

definition update_where_id ::
  "sql_error option \<Rightarrow> db \<Rightarrow> nat option \<Rightarrow> (row \<Rightarrow> row) \<Rightarrow> sql_error + db" where
  "update_where_id fault d key f =
     (case fault of
        Some err \<Rightarrow> Inl err
      | None \<Rightarrow>
          Inr (case key of
                 None \<Rightarrow> d
               | Some k \<Rightarrow> d\<lparr>rows := map (\<lambda>r. if rid r = k then f r else r) (rows d)\<rparr>))"

text \<open>The Express request object, with the three properties the middleware may attach.\<close>

record req =
  body :: webhook_body
  eventDbId :: "nat option"
  isRetry :: bool
  existingEventId :: "nat option"

datatype processed_data =
    OrderResult "string option" string
  | PaymentResult "string option" string
  | NotHandled jsdata

record response =
  http_status :: nat
  success :: bool
  message :: string
  resp_event_id :: "string option"
  resp_processed_at :: "nat option"
  resp_data :: "processed_data option"

datatype mw_result = Responded response | Next req

definition json_response :: "nat \<Rightarrow> bool \<Rightarrow> string \<Rightarrow> string option \<Rightarrow> response" where
  "json_response c ok msg eid =
     \<lparr>http_status = c, success = ok, message = msg, resp_event_id = eid,
      resp_processed_at = None, resp_data = None\<rparr>"

text \<open>The \<^verbatim>\<open>catch\<close> block of the middleware (lines 72 to 87).\<close>

definition on_query_error :: "string \<Rightarrow> sql_error \<Rightarrow> mw_result" where
  "on_query_error eid err =
     (if err = ER_DUP_ENTRY
      then Responded (json_response 200 True
             ''Event already processed (duplicate detected)'' (Some eid))
      else Responded (json_response 500 False ''Failed to verify event idempotency'' None))"

text \<open>What the middleware does with the rows of the SELECT (lines 31 to 57).\<close>

datatype lookup_outcome = Decided mw_result | NotFound

definition after_select :: "req \<Rightarrow> string \<Rightarrow> row list \<Rightarrow> lookup_outcome" where
  "after_select rq eid rs =
     (case rs of
        existingEvent # _ \<Rightarrow>
          if status existingEvent = processed then
            Decided (Responded ((json_response 200 True
              ''Event already processed (idempotent response)'' (Some eid))
                \<lparr>resp_processed_at := processed_at existingEvent\<rparr>))
          else if status existingEvent = failed then
            Decided (Next (rq\<lparr>isRetry := True, existingEventId := Some (rid existingEvent)\<rparr>))
          else
            Decided (Responded (json_response 409 False
              ''Event is currently being processed'' (Some eid)))
      | [] \<Rightarrow> NotFound)"

definition or_unknown :: "string option \<Rightarrow> string" where
  "or_unknown ty = (case ty of None \<Rightarrow> ''unknown'' | Some t \<Rightarrow> if t = [] then ''unknown'' else t)"

text \<open>The INSERT of a new event and what follows it (lines 59 to 71, and the catch block).\<close>

definition do_insert :: "sql_error option \<Rightarrow> db \<Rightarrow> req \<Rightarrow> string \<Rightarrow> db \<times> mw_result" where
  "do_insert fault d rq eid =
     (case insert_pending fault d eid (or_unknown (event_type (body rq))) (body rq) of
        Inl err \<Rightarrow> (d, on_query_error eid err)
      | Inr (d', insertId) \<Rightarrow> (d', Next (rq\<lparr>eventDbId := Some insertId\<rparr>)))"

text \<open>
  \<^verbatim>\<open>idempotencyMiddleware\<close>, run without interruption: \<open>sel_fault\<close> and \<open>ins_fault\<close> are the
  driver errors of its two queries. A missing or empty \<^verbatim>\<open>event_id\<close> is falsy.
\<close>

definition idempotencyMiddleware ::
  "sql_error option \<Rightarrow> sql_error option \<Rightarrow> db \<Rightarrow> req \<Rightarrow> db \<times> mw_result" where
  "idempotencyMiddleware sel_fault ins_fault d rq =
     (case event_id (body rq) of
        None \<Rightarrow> (d, Responded (json_response 400 False
                      ''Missing event_id in webhook payload'' None))
      | Some eid \<Rightarrow>
          if eid = [] then
            (d, Responded (json_response 400 False ''Missing event_id in webhook payload'' None))
          else
            (case select_by_event_id sel_fault d eid of
               Inl err \<Rightarrow> (d, on_query_error eid err)
             | Inr rs \<Rightarrow>
                 (case after_select rq eid rs of
                    Decided res \<Rightarrow> (d, res)
                  | NotFound \<Rightarrow> do_insert ins_fault d rq eid)))"


subsection \<open>Business logic, \<^verbatim>\<open>WebhookService.processEvent\<close> and the controller\<close>

datatype js_error = TypeError | SqlError sql_error

text \<open>Reading a property of \<^verbatim>\<open>data\<close> throws a TypeError when \<^verbatim>\<open>data\<close> is undefined or null.\<close>

definition get_prop :: "jsdata \<Rightarrow> string \<Rightarrow> js_error + string option" where
  "get_prop d k =
     (case d of
        JUndefined \<Rightarrow> Inl TypeError
      | JNull \<Rightarrow> Inl TypeError
      | JObject kv \<Rightarrow> Inr (map_of kv k))"

definition handleOrderCreated :: "jsdata \<Rightarrow> js_error + processed_data" where
  "handleOrderCreated dt =
     (case get_prop dt ''order_id'' of Inl e \<Rightarrow> Inl e | Inr v \<Rightarrow> Inr (OrderResult v ''confirmed''))"

definition handleOrderUpdated :: "jsdata \<Rightarrow> js_error + processed_data" where
  "handleOrderUpdated dt =
     (case get_prop dt ''order_id'' of Inl e \<Rightarrow> Inl e | Inr v \<Rightarrow> Inr (OrderResult v ''updated''))"

definition handlePaymentCompleted :: "jsdata \<Rightarrow> js_error + processed_data" where
  "handlePaymentCompleted dt =
     (case get_prop dt ''payment_id'' of Inl e \<Rightarrow> Inl e | Inr v \<Rightarrow> Inr (PaymentResult v ''captured''))"

text \<open>The \<^verbatim>\<open>switch\<close> on the event type (lines 58 to 72 of the service).\<close>

definition business_logic :: "webhook_body \<Rightarrow> js_error + processed_data" where
  "business_logic b =
     (if event_type b = Some ''order.created'' then handleOrderCreated (data b)
      else if event_type b = Some ''order.updated'' then handleOrderUpdated (data b)
      else if event_type b = Some ''payment.completed'' then handlePaymentCompleted (data b)
      else Inr (NotHandled (data b)))"

text \<open>
  The state the webhook route works on: the table, and the number of times the business
  logic (the \<^verbatim>\<open>switch\<close>) has been entered. The driver errors of the five queries of the
  route are collected in \<open>faults\<close>.
\<close>

record world =
  store :: db
  invocations :: nat

record faults =
  f_select :: "sql_error option"
  f_insert :: "sql_error option"
  f_retry :: "sql_error option"
  f_processed :: "sql_error option"
  f_failed :: "sql_error option"

definition no_faults :: faults where
  "no_faults = \<lparr>f_select = None, f_insert = None, f_retry = None, f_processed = None,
                 f_failed = None\<rparr>"

text \<open>The \<^verbatim>\<open>catch\<close> block of \<^verbatim>\<open>processEvent\<close>: mark the event failed, rethrow.\<close>

definition mark_failed :: "sql_error option \<Rightarrow> db \<Rightarrow> nat option \<Rightarrow> js_error \<Rightarrow> db \<times> js_error" where
  "mark_failed fault d key err =
     (case update_where_id fault d key (\<lambda>r. r\<lparr>status := failed\<rparr>) of
        Inl e \<Rightarrow> (d, SqlError e)
      | Inr d' \<Rightarrow> (d', err))"

definition processEvent ::
  "faults \<Rightarrow> nat \<Rightarrow> world \<Rightarrow> webhook_body \<Rightarrow> nat option \<Rightarrow> bool
     \<Rightarrow> world \<times> (js_error + (string option \<times> processed_data))" where
  "processEvent fl now w eventData evDbId retry =
     (case (if retry
            then update_where_id (f_retry fl) (store w) evDbId
                   (\<lambda>r. r\<lparr>retry_count := Suc (retry_count r)\<rparr>)
            else Inr (store w)) of
        Inl e \<Rightarrow>
          (case mark_failed (f_failed fl) (store w) evDbId (SqlError e) of
             (d', err) \<Rightarrow> (w\<lparr>store := d'\<rparr>, Inl err))
      | Inr d1 \<Rightarrow>
          (case business_logic eventData of
             Inl e \<Rightarrow>
               (case mark_failed (f_failed fl) d1 evDbId e of
                  (d', err) \<Rightarrow> (\<lparr>store = d', invocations = Suc (invocations w)\<rparr>, Inl err))
           | Inr pd \<Rightarrow>
               (case update_where_id (f_processed fl) d1 evDbId
                       (\<lambda>r. r\<lparr>status := processed, processed_at := Some now\<rparr>) of
                  Inl e \<Rightarrow>
                    (case mark_failed (f_failed fl) d1 evDbId (SqlError e) of
                       (d', err) \<Rightarrow>
                         (\<lparr>store = d', invocations = Suc (invocations w)\<rparr>, Inl err))
                | Inr d2 \<Rightarrow>
                    (\<lparr>store = d2, invocations = Suc (invocations w)\<rparr>,
                     Inr (event_id eventData, pd)))))"

text \<open>
  \<^verbatim>\<open>processEvent\<close> in two phases, split at its last \<^verbatim>\<open>await\<close>: the retry update and the
  business logic, then the final status update. \<open>keeps\<close> relates two tables with the same
  identifiers in the same places where no record with a given identifier has become pending.
\<close>

definition run_logic ::
  "faults \<Rightarrow> world \<Rightarrow> webhook_body \<Rightarrow> nat option \<Rightarrow> bool \<Rightarrow> world \<times> (js_error + processed_data)" where
  "run_logic fl w eventData evDbId retry =
     (case (if retry
            then update_where_id (f_retry fl) (store w) evDbId
                   (\<lambda>r. r\<lparr>retry_count := Suc (retry_count r)\<rparr>)
            else Inr (store w)) of
        Inl e \<Rightarrow> (w, Inl (SqlError e))
      | Inr d1 \<Rightarrow> (\<lparr>store = d1, invocations = Suc (invocations w)\<rparr>, business_logic eventData))"

definition finish ::
  "faults \<Rightarrow> nat \<Rightarrow> world \<Rightarrow> webhook_body \<Rightarrow> nat option \<Rightarrow> js_error + processed_data
     \<Rightarrow> world \<times> (js_error + (string option \<times> processed_data))" where
  "finish fl now w eventData evDbId out =
     (case out of
        Inl e \<Rightarrow>
          (case mark_failed (f_failed fl) (store w) evDbId e of
             (d', err) \<Rightarrow> (w\<lparr>store := d'\<rparr>, Inl err))
      | Inr pd \<Rightarrow>
          (case update_where_id (f_processed fl) (store w) evDbId
                  (\<lambda>r. r\<lparr>status := processed, processed_at := Some now\<rparr>) of
             Inl e \<Rightarrow>
               (case mark_failed (f_failed fl) (store w) evDbId (SqlError e) of
                  (d', err) \<Rightarrow> (w\<lparr>store := d'\<rparr>, Inl err))
           | Inr d2 \<Rightarrow> (w\<lparr>store := d2\<rparr>, Inr (event_id eventData, pd))))"

definition keeps :: "db \<Rightarrow> db \<Rightarrow> bool" where
  "keeps d d' \<longleftrightarrow>
     map r_event_id (rows d') = map r_event_id (rows d) \<and>
     (\<forall>e. (\<forall>r\<in>set (rows d). r_event_id r = e \<longrightarrow> status r \<noteq> pending) \<longrightarrow>
          (\<forall>r\<in>set (rows d'). r_event_id r = e \<longrightarrow> status r \<noteq> pending))"

text \<open>
  \<^verbatim>\<open>WebhookController.handleCallback\<close>: the handle it passes on is \<^verbatim>\<open>req.eventDbId\<close>.
  The \<^verbatim>\<open>error\<close> text of the 500 response is left out.
\<close>

definition callback_answer :: "js_error + (string option \<times> processed_data) \<Rightarrow> response" where
  "callback_answer res =
     (case res of
        Inr (eid, pd) \<Rightarrow>
          (json_response 200 True ''Webhook processed successfully'' eid)\<lparr>resp_data := Some pd\<rparr>
      | Inl err \<Rightarrow> json_response 500 False ''Failed to process webhook'' None)"

definition handleCallback :: "faults \<Rightarrow> nat \<Rightarrow> world \<Rightarrow> req \<Rightarrow> world \<times> response" where
  "handleCallback fl now w rq =
     (case processEvent fl now w (body rq) (eventDbId rq) (isRetry rq) of
        (w', res) \<Rightarrow> (w', callback_answer res))"

text \<open>The route \<^verbatim>\<open>POST /webhook/callback\<close>: the middleware, then the controller.\<close>

definition webhook_callback :: "faults \<Rightarrow> nat \<Rightarrow> world \<Rightarrow> req \<Rightarrow> world \<times> response" where
  "webhook_callback fl now w rq =
     (case idempotencyMiddleware (f_select fl) (f_insert fl) (store w) rq of
        (d', Responded r) \<Rightarrow> (w\<lparr>store := d'\<rparr>, r)
      | (d', Next rq') \<Rightarrow> handleCallback fl now (w\<lparr>store := d'\<rparr>) rq')"

text \<open>A fresh request: nothing attached yet.\<close>

definition fresh_req :: "webhook_body \<Rightarrow> req" where
  "fresh_req b = \<lparr>body = b, eventDbId = None, isRetry = False, existingEventId = None\<rparr>"

subsection \<open>Requests in flight at the same time\<close>

text \<open>
  Every query is a point where a request handler yields, so the handlers of several requests
  interleave query by query. A request in flight is at one of these points: before its
  SELECT; after a SELECT that found nothing, before its INSERT; admitted by the middleware,
  before \<^verbatim>\<open>processEvent\<close>; after the business logic, before the final UPDATE; answered.
  One step runs one handler from its point to the next, on the table as it is then, with no
  driver error; the retry update and the business logic, which reads nothing of the table,
  are one step. A schedule names, step by step, the request that runs and the instant.
\<close>

datatype proc =
    Arrived req
  | Inserting req string
  | Admitted req
  | Handled req "js_error + processed_data"
  | Finished response

record sys =
  sys_world :: world
  procs :: "proc list"

definition after_middleware :: "mw_result \<Rightarrow> proc" where
  "after_middleware res = (case res of Responded r \<Rightarrow> Finished r | Next rq \<Rightarrow> Admitted rq)"

definition proc_step :: "nat \<Rightarrow> world \<Rightarrow> proc \<Rightarrow> world \<times> proc" where
  "proc_step now w p =
     (case p of
        Arrived rq \<Rightarrow>
          (case event_id (body rq) of
             None \<Rightarrow> (w, Finished (json_response 400 False
                          ''Missing event_id in webhook payload'' None))
           | Some eid \<Rightarrow>
               if eid = [] then
                 (w, Finished (json_response 400 False
                        ''Missing event_id in webhook payload'' None))
               else
                 (case select_by_event_id None (store w) eid of
                    Inl err \<Rightarrow> (w, after_middleware (on_query_error eid err))
                  | Inr rs \<Rightarrow>
                      (case after_select rq eid rs of
                         Decided res \<Rightarrow> (w, after_middleware res)
                       | NotFound \<Rightarrow> (w, Inserting rq eid))))
      | Inserting rq eid \<Rightarrow>
          (case do_insert None (store w) rq eid of
             (d', res) \<Rightarrow> (w\<lparr>store := d'\<rparr>, after_middleware res))
      | Admitted rq \<Rightarrow>
          (case run_logic no_faults w (body rq) (eventDbId rq) (isRetry rq) of
             (w', out) \<Rightarrow> (w', Handled rq out))
      | Handled rq out \<Rightarrow>
          (case finish no_faults now w (body rq) (eventDbId rq) out of
             (w', res) \<Rightarrow> (w', Finished (callback_answer res)))
      | Finished r \<Rightarrow> (w, Finished r))"

definition step :: "nat \<times> nat \<Rightarrow> sys \<Rightarrow> sys" where
  "step e s =
     (case e of
        (i, now) \<Rightarrow>
          if i < length (procs s) then
            (case proc_step now (sys_world s) (procs s ! i) of
               (w', p') \<Rightarrow> \<lparr>sys_world = w', procs = (procs s)[i := p']\<rparr>)
          else s)"

fun run :: "(nat \<times> nat) list \<Rightarrow> sys \<Rightarrow> sys" where
  "run [] s = s"
| "run (e # es) s = run es (step e s)"

text \<open>\<open>N\<close> submissions of the same event, all of them arrived and none started.\<close>

definition submit_all :: "world \<Rightarrow> webhook_body \<Rightarrow> nat \<Rightarrow> sys" where
  "submit_all w b N = \<lparr>sys_world = w, procs = replicate N (Arrived (fresh_req b))\<rparr>"

text \<open>
  The answers: new processing, and the two answers to a duplicate, already completed (the
  record was found processed, or the INSERT met the duplicate key) and in flight.
\<close>

definition new_answer :: "string \<Rightarrow> processed_data \<Rightarrow> response \<Rightarrow> bool" where
  "new_answer eid pd r \<longleftrightarrow>
     r = \<lparr>http_status = 200, success = True, message = ''Webhook processed successfully'',
          resp_event_id = Some eid, resp_processed_at = None, resp_data = Some pd\<rparr>"

definition already_completed :: "string \<Rightarrow> response \<Rightarrow> bool" where
  "already_completed eid r \<longleftrightarrow>
     http_status r = 200 \<and> success r \<and> resp_event_id r = Some eid \<and> resp_data r = None \<and>
     (message r = ''Event already processed (idempotent response)'' \<or>
      message r = ''Event already processed (duplicate detected)'')"

definition duplicate_in_flight :: "string \<Rightarrow> response \<Rightarrow> bool" where
  "duplicate_in_flight eid r \<longleftrightarrow>
     r = \<lparr>http_status = 409, success = False, message = ''Event is currently being processed'',
          resp_event_id = Some eid, resp_processed_at = None, resp_data = None\<rparr>"

definition is_new :: "proc \<Rightarrow> bool" where
  "is_new p =
     (case p of Finished r \<Rightarrow> message r = ''Webhook processed successfully'' | _ \<Rightarrow> False)"

definition answered :: "proc \<Rightarrow> bool" where
  "answered p = (case p of Finished r \<Rightarrow> True | _ \<Rightarrow> False)"

text \<open>
  The invariant of \<open>N\<close> submissions of one event \<open>b\<close> with identifier \<open>eid\<close>, whose
  business logic returns \<open>pd\<close>, on a table that had no record of \<open>eid\<close> and a count of
  \<open>n0\<close> invocations at the start. The owner of the record is the request whose INSERT
  succeeded; \<open>proc_inv\<close> says what the table and the count look like at each point of a
  request.
\<close>

definition the_rows :: "string \<Rightarrow> world \<Rightarrow> row list" where
  "the_rows eid w = filter (\<lambda>r. r_event_id r = eid) (rows (store w))"

definition owner :: "proc \<Rightarrow> bool" where
  "owner p =
     (case p of
        Arrived rq \<Rightarrow> False
      | Inserting rq e \<Rightarrow> False
      | Admitted rq \<Rightarrow> True
      | Handled rq out \<Rightarrow> True
      | Finished r \<Rightarrow> message r = ''Webhook processed successfully'')"

definition admitted_req :: "webhook_body \<Rightarrow> row \<Rightarrow> req" where
  "admitted_req b r = (fresh_req b)\<lparr>eventDbId := Some (rid r)\<rparr>"

definition proc_inv :: "string \<Rightarrow> webhook_body \<Rightarrow> processed_data \<Rightarrow> nat \<Rightarrow> world \<Rightarrow> proc \<Rightarrow> bool" where
  "proc_inv eid b pd n0 w p =
     (case p of
        Arrived rq \<Rightarrow> rq = fresh_req b
      | Inserting rq e \<Rightarrow> rq = fresh_req b \<and> e = eid
      | Admitted rq \<Rightarrow>
          invocations w = n0 \<and>
          (case the_rows eid w of
             [r] \<Rightarrow> status r = pending \<and> rq = admitted_req b r
           | _ \<Rightarrow> False)
      | Handled rq out \<Rightarrow>
          invocations w = Suc n0 \<and> out = Inr pd \<and>
          (case the_rows eid w of
             [r] \<Rightarrow> status r = pending \<and> rq = admitted_req b r
           | _ \<Rightarrow> False)
      | Finished r \<Rightarrow>
          (new_answer eid pd r \<and> invocations w = Suc n0 \<and>
           (case the_rows eid w of [r0] \<Rightarrow> status r0 = processed | _ \<Rightarrow> False))
          \<or> ((already_completed eid r \<or> duplicate_in_flight eid r) \<and> the_rows eid w \<noteq> []))"

definition guard_inv :: "string \<Rightarrow> webhook_body \<Rightarrow> processed_data \<Rightarrow> nat \<Rightarrow> sys \<Rightarrow> bool" where
  "guard_inv eid b pd n0 s \<longleftrightarrow>
     length (the_rows eid (sys_world s)) \<le> 1 \<and>
     (\<forall>r\<in>set (the_rows eid (sys_world s)). status r \<noteq> failed) \<and>
     (the_rows eid (sys_world s) = [] \<longrightarrow> invocations (sys_world s) = n0) \<and>
     (invocations (sys_world s) = n0 \<or> invocations (sys_world s) = Suc n0) \<and>
     (\<forall>p\<in>set (procs s). proc_inv eid b pd n0 (sys_world s) p) \<and>
     length (filter owner (procs s)) = (if the_rows eid (sys_world s) = [] then 0 else 1)"

fun rank :: "proc \<Rightarrow> nat" where
  "rank (Arrived rq) = 0"
| "rank (Inserting rq e) = 1"
| "rank (Admitted rq) = 2"
| "rank (Handled rq out) = 3"
| "rank (Finished r) = 4"

text \<open>
  An event whose handler throws (\<^verbatim>\<open>data\<close> is missing), an empty table, and two schedules
  of two requests: both SELECTs before any INSERT; the first request to its end, then the
  second.
\<close>

definition evt_no_data :: webhook_body where
  "evt_no_data = \<lparr>event_id = Some ''evt_2'', event_type = Some ''order.created'',
                   data = JUndefined\<rparr>"

definition empty_world :: world where
  "empty_world = \<lparr>store = \<lparr>rows = [], next_id = 1\<rparr>, invocations = 0\<rparr>"

definition two_racing :: "(nat \<times> nat) list" where
  "two_racing = [(0, 1), (1, 1), (0, 2), (1, 2), (0, 3), (0, 4), (1, 5), (1, 5)]"

definition one_after_the_other :: "(nat \<times> nat) list" where
  "one_after_the_other = [(0, 1), (0, 1), (0, 1), (0, 1), (1, 2), (1, 2), (1, 2)]"

text \<open>The event of the spec's scenario, and a stored record of it.\<close>

definition evt1 :: webhook_body where
  "evt1 = \<lparr>event_id = Some ''evt_1'', event_type = Some ''order.created'',
            data = JObject [(''order_id'', ''42'')]\<rparr>"

definition evt1_row :: "ev_status \<Rightarrow> nat option \<Rightarrow> row" where
  "evt1_row st done_at =
     \<lparr>rid = 1, r_event_id = ''evt_1'', r_event_type = ''order.created'', payload = evt1,
      status = st, retry_count = 0, processed_at = done_at\<rparr>"

section \<open>Sliding-window rate limiter\<close>

text \<open>
  A Redis sorted set: members with scores, each member at most once. The limiter adds the
  member \<^verbatim>\<open>`${now}`\<close>, the decimal text of the timestamp; the model takes the timestamp
  itself as the member. Times are milliseconds.
\<close>

type_synonym zset = "(int \<times> int) list"

definition zRemRangeByScore :: "zset \<Rightarrow> int \<Rightarrow> int \<Rightarrow> zset" where
  "zRemRangeByScore z lo hi = filter (\<lambda>(m, sc). \<not> (lo \<le> sc \<and> sc \<le> hi)) z"

definition zAdd :: "zset \<Rightarrow> int \<Rightarrow> int \<Rightarrow> zset" where
  "zAdd z sc m =
     (if m \<in> fst ` set z then map (\<lambda>(m', sc'). if m' = m then (m', sc) else (m', sc')) z
      else z @ [(m, sc)])"

definition zCard :: "zset \<Rightarrow> int" where
  "zCard z = int (length z)"

text \<open>A key of the store holds the set and the instant at which the key expires.\<close>

record zkey =
  members :: zset
  expires_at :: "int option"

type_synonym rstore = "string \<Rightarrow> zkey option"

definition live :: "int \<Rightarrow> rstore \<Rightarrow> string \<Rightarrow> zset" where
  "live now st k =
     (case st k of
        None \<Rightarrow> []
      | Some e \<Rightarrow>
          (case expires_at e of
             None \<Rightarrow> members e
           | Some t \<Rightarrow> if t < now then [] else members e))"

text \<open>\<^verbatim>\<open>Math.ceil(a / b)\<close> for a positive divisor.\<close>

definition ceil_div :: "int \<Rightarrow> int \<Rightarrow> int" where
  "ceil_div a b = - ((- a) div b)"

text \<open>\<^verbatim>\<open>EXPIRE key seconds\<close>: a timeout that is not positive deletes the key.\<close>

definition expire :: "int \<Rightarrow> rstore \<Rightarrow> string \<Rightarrow> zset \<Rightarrow> int \<Rightarrow> rstore" where
  "expire now st k z secs =
     (if secs \<le> 0 then st(k := None)
      else st(k \<mapsto> \<lparr>members = z, expires_at = Some (now + secs * 1000)\<rparr>))"

record rl_options =
  windowMs :: int
  maxRequests :: int
  keyPrefix :: string

definition rateLimiterOptions :: "int option \<Rightarrow> int option \<Rightarrow> string option \<Rightarrow> rl_options" where
  "rateLimiterOptions w m p =
     \<lparr>windowMs = (case w of None \<Rightarrow> 15 * 60 * 1000 | Some x \<Rightarrow> x),
      maxRequests = (case m of None \<Rightarrow> 100 | Some x \<Rightarrow> x),
      keyPrefix = (case p of None \<Rightarrow> ''ratelimit:'' | Some x \<Rightarrow> x)\<rparr>"

record client =
  ip :: "string option"
  remoteAddress :: "string option"

definition clientId :: "client \<Rightarrow> string" where
  "clientId c =
     (case ip c of
        Some a \<Rightarrow> if a = [] then (case remoteAddress c of None \<Rightarrow> ''undefined'' | Some b \<Rightarrow> b) else a
      | None \<Rightarrow> (case remoteAddress c of None \<Rightarrow> ''undefined'' | Some b \<Rightarrow> b))"

record rl_headers =
  x_limit :: int
  x_remaining :: int
  x_reset :: int

datatype rl_outcome =
    Allowed rl_headers
  | Rejected rl_headers int
  | FailedOpen string

text \<open>
  The four commands queued on \<^verbatim>\<open>redisClient.multi()\<close>, run as one transaction: the new
  store and the reply of \<^verbatim>\<open>zCard\<close>.
\<close>

definition rl_exec :: "rl_options \<Rightarrow> int \<Rightarrow> rstore \<Rightarrow> string \<Rightarrow> rstore \<times> int" where
  "rl_exec opts now st k =
     (let windowStart = now - windowMs opts;
          z1 = zRemRangeByScore (live now st k) 0 windowStart;
          z2 = zAdd z1 now now
      in (expire now st k z2 (ceil_div (windowMs opts) 1000), zCard z2))"

text \<open>
  The middleware returned by \<^verbatim>\<open>rateLimiter(options)\<close>. \<open>fault\<close> says that the store
  rejected the transaction: nothing of it is applied, the error is logged and the request
  goes on. The outcome \<open>Allowed\<close> stands for the call of \<^verbatim>\<open>next()\<close> after the headers,
  \<open>Rejected\<close> for the 429 answer with its \<^verbatim>\<open>Retry-After\<close> in seconds.
\<close>

definition rateLimiter ::
  "rl_options \<Rightarrow> bool \<Rightarrow> int \<Rightarrow> rstore \<Rightarrow> client \<Rightarrow> rstore \<times> rl_outcome" where
  "rateLimiter opts fault now st c =
     (if fault then (st, FailedOpen ''Rate limiter error:'')
      else
        (case rl_exec opts now st (keyPrefix opts @ clientId c) of
           (st', requestCount) \<Rightarrow>
             (let h = \<lparr>x_limit = maxRequests opts,
                       x_remaining = max 0 (maxRequests opts - requestCount),
                       x_reset = now + windowMs opts\<rparr>
              in if requestCount > maxRequests opts
                 then (st', Rejected h (ceil_div (windowMs opts) 1000))
                 else (st', Allowed h))))"

text \<open>Successive requests of one client, at the given instants, with no store error.\<close>

fun rl_run :: "rl_options \<Rightarrow> client \<Rightarrow> rstore \<Rightarrow> int list \<Rightarrow> rstore \<times> rl_outcome list" where
  "rl_run opts c st [] = (st, [])"
| "rl_run opts c st (t # ts) =
     (case rateLimiter opts False t st c of
        (st', out) \<Rightarrow> (case rl_run opts c st' ts of (st'', outs) \<Rightarrow> (st'', out # outs)))"

definition empty_store :: rstore where
  "empty_store = (\<lambda>k. None)"

text \<open>Whether \<^verbatim>\<open>next()\<close> was called, what was written to the error log, and the key's entries.\<close>

definition proceeds :: "rl_outcome \<Rightarrow> bool" where
  "proceeds out = (case out of Allowed h \<Rightarrow> True | Rejected h ra \<Rightarrow> False | FailedOpen msg \<Rightarrow> True)"

definition logged :: "rl_outcome \<Rightarrow> string list" where
  "logged out = (case out of Allowed h \<Rightarrow> [] | Rejected h ra \<Rightarrow> [] | FailedOpen msg \<Rightarrow> [msg])"

definition slots :: "rstore \<Rightarrow> string \<Rightarrow> zset" where
  "slots st k = (case st k of None \<Rightarrow> [] | Some e \<Rightarrow> members e)"

text \<open>
  The answer of the limiter for a given count, the answers expected of a limiter that counts
  the distinct timestamps seen so far, and two invariants of the key used in the proofs:
  the entry of instant \<open>now\<close> is stored and the key outlives its window; the stored entries
  are exactly the instants of \<open>S\<close>, each once.
\<close>

definition occupied :: "rl_options \<Rightarrow> int \<Rightarrow> rstore \<Rightarrow> string \<Rightarrow> bool" where
  "occupied opts now st k =
     (case st k of
        None \<Rightarrow> False
      | Some e \<Rightarrow>
          (now, now) \<in> set (members e) \<and>
          (case expires_at e of None \<Rightarrow> False | Some x \<Rightarrow> now + windowMs opts \<le> x))"

definition decide :: "rl_options \<Rightarrow> int \<Rightarrow> int \<Rightarrow> rl_outcome" where
  "decide opts now requestCount =
     (let h = \<lparr>x_limit = maxRequests opts,
               x_remaining = max 0 (maxRequests opts - requestCount),
               x_reset = now + windowMs opts\<rparr>
      in if requestCount > maxRequests opts then Rejected h (ceil_div (windowMs opts) 1000)
         else Allowed h)"

fun expected :: "rl_options \<Rightarrow> int set \<Rightarrow> int list \<Rightarrow> rl_outcome list" where
  "expected opts S [] = []"
| "expected opts S (t # ts) =
     decide opts t (int (card (insert t S))) # expected opts (insert t S) ts"

definition tracked :: "rl_options \<Rightarrow> int \<Rightarrow> rstore \<Rightarrow> string \<Rightarrow> int set \<Rightarrow> bool" where
  "tracked opts a st k S =
     (case st k of
        None \<Rightarrow> S = {}
      | Some e \<Rightarrow>
          distinct (map fst (members e)) \<and> set (members e) = (\<lambda>s. (s, s)) ` S \<and>
          (case expires_at e of None \<Rightarrow> False | Some x \<Rightarrow> a + windowMs opts \<le> x))"

definition one_per_second :: rl_options where
  "one_per_second = \<lparr>windowMs = 1000, maxRequests = 1, keyPrefix = ''ratelimit:''\<rparr>"

definition client1 :: client where
  "client1 = \<lparr>ip = Some ''10.0.0.1'', remoteAddress = None\<rparr>"

section \<open>Circuit breaker\<close>

text \<open>
  \<^verbatim>\<open>utils/circuitBreaker.js\<close>. The three Redis keys of one breaker: the state (no expiry),
  the failure counter with the instant at which it expires, and the time of the last
  failure (no expiry). Store commands are taken to succeed; a rejected command would leave
  \<^verbatim>\<open>execute\<close> with that error.
\<close>

datatype cb_state = CLOSED | OPEN | HALF_OPEN

record breaker =
  cb_name :: string
  failureThreshold :: int
  resetTimeout :: int
  monitoringPeriod :: int

definition or_default :: "int option \<Rightarrow> int \<Rightarrow> int" where
  "or_default v d = (case v of None \<Rightarrow> d | Some x \<Rightarrow> if x = 0 then d else x)"

definition CircuitBreaker :: "string \<Rightarrow> int option \<Rightarrow> int option \<Rightarrow> int option \<Rightarrow> breaker" where
  "CircuitBreaker nm ft rt mp =
     \<lparr>cb_name = nm, failureThreshold = or_default ft 5, resetTimeout = or_default rt 60000,
      monitoringPeriod = or_default mp 120000\<rparr>"

record cb_store =
  stateKey :: "cb_state option"
  failureKey :: "(int \<times> int option) option"
  lastFailureKey :: "int option"

definition getState :: "cb_store \<Rightarrow> cb_state" where
  "getState s = (case stateKey s of None \<Rightarrow> CLOSED | Some x \<Rightarrow> x)"

definition setState :: "cb_store \<Rightarrow> cb_state \<Rightarrow> cb_store" where
  "setState s x = s\<lparr>stateKey := Some x\<rparr>"

definition recordSuccess :: "cb_store \<Rightarrow> cb_store" where
  "recordSuccess s = s\<lparr>failureKey := None\<rparr>"

text \<open>The counter as the store sees it at instant \<open>now\<close>: gone once its expiry has passed.\<close>

definition live_failures :: "int \<Rightarrow> cb_store \<Rightarrow> (int \<times> int option) option" where
  "live_failures now s =
     (case failureKey s of
        None \<Rightarrow> None
      | Some (v, ttl) \<Rightarrow>
          (case ttl of
             None \<Rightarrow> Some (v, ttl)
           | Some t \<Rightarrow> if t < now then None else Some (v, ttl)))"

text \<open>
  \<^verbatim>\<open>recordFailure\<close>: one transaction of \<^verbatim>\<open>INCR\<close> (a missing counter starts at 1), \<^verbatim>\<open>SET\<close> of
  the last-failure time and \<^verbatim>\<open>EXPIRE\<close> of the counter.
\<close>

definition recordFailure :: "breaker \<Rightarrow> int \<Rightarrow> cb_store \<Rightarrow> cb_store" where
  "recordFailure cb now s =
     (let v = (case live_failures now s of None \<Rightarrow> 1 | Some (n, ttl) \<Rightarrow> n + 1);
          secs = ceil_div (monitoringPeriod cb) 1000
      in s\<lparr>failureKey := (if secs \<le> 0 then None else Some (v, Some (now + secs * 1000))),
           lastFailureKey := Some now\<rparr>)"

definition getFailureCount :: "int \<Rightarrow> cb_store \<Rightarrow> int" where
  "getFailureCount now s = (case live_failures now s of None \<Rightarrow> 0 | Some (n, ttl) \<Rightarrow> n)"

definition cb_open :: "cb_store \<Rightarrow> cb_store" where
  "cb_open s = setState s OPEN"

definition cb_close :: "cb_store \<Rightarrow> cb_store" where
  "cb_close s = (setState s CLOSED)\<lparr>failureKey := None\<rparr>"

definition canAttemptReset :: "breaker \<Rightarrow> int \<Rightarrow> cb_store \<Rightarrow> bool" where
  "canAttemptReset cb now s =
     (case lastFailureKey s of
        None \<Rightarrow> True
      | Some lastFailure \<Rightarrow> now - lastFailure \<ge> resetTimeout cb)"

text \<open>
  The wrapped operation is given by what it does when it is called. \<^verbatim>\<open>execute\<close> is split
  at the call: \<open>gate\<close> is what runs before it (lines 32 to 45), at instant \<open>t0\<close>;
  \<open>settle\<close> is what runs after it (lines 47 to 72), at instant \<open>t1\<close>, with the value the
  local variable \<^verbatim>\<open>state\<close> got on entry. The result records how often the operation was
  called.
\<close>

datatype 'a attempt = Returns 'a | Throws string

datatype cb_error = CircuitOpen string | OperationError string

record 'a cb_result =
  cb_after :: cb_store
  cb_calls :: nat
  cb_answer :: "cb_error + 'a"

definition gate :: "breaker \<Rightarrow> int \<Rightarrow> cb_store \<Rightarrow> cb_error + cb_store" where
  "gate cb t0 s =
     (if getState s = OPEN then
        (if canAttemptReset cb t0 s then Inr (setState s HALF_OPEN)
         else Inl (CircuitOpen (cb_name cb)))
      else Inr s)"

definition settle ::
  "breaker \<Rightarrow> cb_state \<Rightarrow> int \<Rightarrow> cb_store \<Rightarrow> 'a attempt \<Rightarrow> cb_store \<times> (cb_error + 'a)" where
  "settle cb state t1 s a =
     (case a of
        Returns v \<Rightarrow> (if state = HALF_OPEN then cb_close s else recordSuccess s, Inr v)
      | Throws e \<Rightarrow>
          (let s2 = recordFailure cb t1 s;
               failureCount = getFailureCount t1 s2
           in (if failureCount \<ge> failureThreshold cb then cb_open s2 else s2,
               Inl (OperationError e))))"

definition execute :: "breaker \<Rightarrow> int \<Rightarrow> 'a attempt \<Rightarrow> int \<Rightarrow> cb_store \<Rightarrow> 'a cb_result" where
  "execute cb t0 a t1 s =
     (let state = getState s
      in case gate cb t0 s of
           Inl err \<Rightarrow> \<lparr>cb_after = s, cb_calls = 0, cb_answer = Inl err\<rparr>
         | Inr s1 \<Rightarrow>
             (case settle cb state t1 s1 a of
                (s2, ans) \<Rightarrow> \<lparr>cb_after = s2, cb_calls = 1, cb_answer = ans\<rparr>))"

text \<open>Successive calls, each given by its entry instant, its operation and its end instant.\<close>

fun cb_run :: "breaker \<Rightarrow> cb_store \<Rightarrow> (int \<times> 'a attempt \<times> int) list \<Rightarrow> cb_store" where
  "cb_run cb s [] = s"
| "cb_run cb s ((t0, a, t1) # cs) = cb_run cb (cb_after (execute cb t0 a t1 s)) cs"

definition fresh_store :: cb_store where
  "fresh_store = \<lparr>stateKey = None, failureKey = None, lastFailureKey = None\<rparr>"

definition default_breaker :: breaker where
  "default_breaker = CircuitBreaker ''fakestoreapi'' None None None"

text \<open>
  Two histories of the default breaker: five failures in a row, and the same followed, after
  the counter has expired, by a failed call.
\<close>

definition outage :: "(int \<times> unit attempt \<times> int) list" where
  "outage = [(0, Throws ''down'', 0), (1, Throws ''down'', 1), (2, Throws ''down'', 2),
             (3, Throws ''down'', 3), (4, Throws ''down'', 4)]"

definition expired_trial :: "(int \<times> unit attempt \<times> int) list" where
  "expired_trial = outage @ [(130000, Throws ''down'', 130001)]"

section \<open>Credential refresh: waiting for the lease\<close>









section \<open>Theorems\<close>

lemma filter_find_None: "find P xs = None \<Longrightarrow> filter P xs = []"
  by (induction xs) (auto split: if_splits)

lemma filter_find_Some: "find P xs = Some x \<Longrightarrow> \<exists>rest. filter P xs = x # rest"
  by (induction xs) (auto split: if_splits)

lemma find_None_not_in_image:
  "find (\<lambda>r. r_event_id r = eid) rs = None \<Longrightarrow> eid \<notin> r_event_id ` set rs"
  by (auto simp: find_None_iff)

subsection \<open>The guard's answers\<close>

text \<open>
  Claim C1. An admit call with a non-empty event identifier whose two queries meet no
  driver error: when no record has the identifier, a record with status pending is
  appended and the request goes on (NEW) with \<^verbatim>\<open>eventDbId\<close> set to the new row's id; when
  the record found is processed, the answer is 200 with the row's completion time, the
  table is unchanged and the request does not go on, so the business logic is not run; when
  the record found is pending, the answer is 409 "currently being processed", which is
  neither the 200 of a success nor the 500 of a failure.
\<close>

theorem admit_by_record_status:
  assumes "event_id (body rq) = Some eid" and "eid \<noteq> []"
  shows "(find (\<lambda>r. r_event_id r = eid) (rows d) = None \<longrightarrow>
            idempotencyMiddleware None None d rq =
              (d\<lparr>rows := rows d @
                    [\<lparr>rid = next_id d, r_event_id = eid,
                      r_event_type = or_unknown (event_type (body rq)), payload = body rq,
                      status = pending, retry_count = 0, processed_at = None\<rparr>],
                  next_id := Suc (next_id d)\<rparr>,
               Next (rq\<lparr>eventDbId := Some (next_id d)\<rparr>)))
       \<and> (\<forall>r. find (\<lambda>r. r_event_id r = eid) (rows d) = Some r \<and> status r = processed \<longrightarrow>
            idempotencyMiddleware None ins_fault d rq =
              (d, Responded \<lparr>http_status = 200, success = True,
                    message = ''Event already processed (idempotent response)'',
                    resp_event_id = Some eid, resp_processed_at = processed_at r,
                    resp_data = None\<rparr>)
            \<and> webhook_callback (fl\<lparr>f_select := None\<rparr>) now \<lparr>store = d, invocations = n\<rparr> rq =
              (\<lparr>store = d, invocations = n\<rparr>,
               \<lparr>http_status = 200, success = True,
                 message = ''Event already processed (idempotent response)'',
                 resp_event_id = Some eid, resp_processed_at = processed_at r,
                 resp_data = None\<rparr>))
       \<and> (\<forall>r. find (\<lambda>r. r_event_id r = eid) (rows d) = Some r \<and> status r = pending \<longrightarrow>
            idempotencyMiddleware None ins_fault d rq =
              (d, Responded \<lparr>http_status = 409, success = False,
                    message = ''Event is currently being processed'',
                    resp_event_id = Some eid, resp_processed_at = None, resp_data = None\<rparr>)
            \<and> webhook_callback (fl\<lparr>f_select := None\<rparr>) now \<lparr>store = d, invocations = n\<rparr> rq =
              (\<lparr>store = d, invocations = n\<rparr>,
               \<lparr>http_status = 409, success = False,
                 message = ''Event is currently being processed'',
                 resp_event_id = Some eid, resp_processed_at = None, resp_data = None\<rparr>))"
proof (intro conjI allI impI)
  assume nf: "find (\<lambda>r. r_event_id r = eid) (rows d) = None"
  have "eid \<notin> r_event_id ` set (rows d)"
    using nf by (rule find_None_not_in_image)
  then show "idempotencyMiddleware None None d rq =
      (d\<lparr>rows := rows d @
            [\<lparr>rid = next_id d, r_event_id = eid,
              r_event_type = or_unknown (event_type (body rq)), payload = body rq,
              status = pending, retry_count = 0, processed_at = None\<rparr>],
          next_id := Suc (next_id d)\<rparr>,
       Next (rq\<lparr>eventDbId := Some (next_id d)\<rparr>))"
    using assms filter_find_None [OF nf]
    by (simp add: idempotencyMiddleware_def select_by_event_id_def after_select_def
        do_insert_def insert_pending_def)
next
  fix r
  assume h: "find (\<lambda>r. r_event_id r = eid) (rows d) = Some r \<and> status r = processed"
  then obtain rest where f: "filter (\<lambda>r. r_event_id r = eid) (rows d) = r # rest"
    using filter_find_Some [of "\<lambda>r. r_event_id r = eid" "rows d" r] by auto
  show mw: "idempotencyMiddleware None ins_fault d rq =
      (d, Responded \<lparr>http_status = 200, success = True,
            message = ''Event already processed (idempotent response)'',
            resp_event_id = Some eid, resp_processed_at = processed_at r,
            resp_data = None\<rparr>)"
    using assms h f
    by (simp add: idempotencyMiddleware_def select_by_event_id_def after_select_def
        json_response_def)
  show "webhook_callback (fl\<lparr>f_select := None\<rparr>) now \<lparr>store = d, invocations = n\<rparr> rq =
      (\<lparr>store = d, invocations = n\<rparr>,
       \<lparr>http_status = 200, success = True,
         message = ''Event already processed (idempotent response)'',
         resp_event_id = Some eid, resp_processed_at = processed_at r,
         resp_data = None\<rparr>)"
    using assms h f
    by (simp add: webhook_callback_def idempotencyMiddleware_def select_by_event_id_def
        after_select_def json_response_def)
next
  fix r
  assume h: "find (\<lambda>r. r_event_id r = eid) (rows d) = Some r \<and> status r = pending"
  then obtain rest where f: "filter (\<lambda>r. r_event_id r = eid) (rows d) = r # rest"
    using filter_find_Some [of "\<lambda>r. r_event_id r = eid" "rows d" r] by auto
  show "idempotencyMiddleware None ins_fault d rq =
      (d, Responded \<lparr>http_status = 409, success = False,
            message = ''Event is currently being processed'',
            resp_event_id = Some eid, resp_processed_at = None, resp_data = None\<rparr>)"
    using assms h f
    by (simp add: idempotencyMiddleware_def select_by_event_id_def after_select_def
        json_response_def)
  show "webhook_callback (fl\<lparr>f_select := None\<rparr>) now \<lparr>store = d, invocations = n\<rparr> rq =
      (\<lparr>store = d, invocations = n\<rparr>,
       \<lparr>http_status = 409, success = False,
         message = ''Event is currently being processed'',
         resp_event_id = Some eid, resp_processed_at = None, resp_data = None\<rparr>)"
    using assms h f
    by (simp add: webhook_callback_def idempotencyMiddleware_def select_by_event_id_def
        after_select_def json_response_def)
qed


theorem admit_by_record_status_witness:
  "idempotencyMiddleware None None \<lparr>rows = [], next_id = 1\<rparr> (fresh_req evt1) =
     (\<lparr>rows = [evt1_row pending None], next_id = 2\<rparr>,
      Next ((fresh_req evt1)\<lparr>eventDbId := Some 1\<rparr>))
   \<and> webhook_callback no_faults 99
        \<lparr>store = \<lparr>rows = [evt1_row processed (Some 7)], next_id = 2\<rparr>, invocations = 1\<rparr>
        (fresh_req evt1) =
       (\<lparr>store = \<lparr>rows = [evt1_row processed (Some 7)], next_id = 2\<rparr>, invocations = 1\<rparr>,
        \<lparr>http_status = 200, success = True,
          message = ''Event already processed (idempotent response)'',
          resp_event_id = Some ''evt_1'', resp_processed_at = Some 7, resp_data = None\<rparr>)
   \<and> webhook_callback no_faults 99
        \<lparr>store = \<lparr>rows = [evt1_row pending None], next_id = 2\<rparr>, invocations = 0\<rparr>
        (fresh_req evt1) =
       (\<lparr>store = \<lparr>rows = [evt1_row pending None], next_id = 2\<rparr>, invocations = 0\<rparr>,
        \<lparr>http_status = 409, success = False,
          message = ''Event is currently being processed'',
          resp_event_id = Some ''evt_1'', resp_processed_at = None, resp_data = None\<rparr>)"
proof -
  have e: "event_id (body (fresh_req evt1)) = Some ''evt_1''" and ne: "''evt_1'' \<noteq> []"
    by (simp_all add: fresh_req_def evt1_def)
  have a: "no_faults\<lparr>f_select := None\<rparr> = no_faults"
    by (simp add: no_faults_def)
  note new = admit_by_record_status [OF e ne, of "\<lparr>rows = [], next_id = 1\<rparr>" None no_faults 99 0]
  note fin = admit_by_record_status [OF e ne,
      of "\<lparr>rows = [evt1_row processed (Some 7)], next_id = 2\<rparr>" None no_faults 99 1]
  note busy = admit_by_record_status [OF e ne,
      of "\<lparr>rows = [evt1_row pending None], next_id = 2\<rparr>" None no_faults 99 0]
  have 1: "idempotencyMiddleware None None \<lparr>rows = [], next_id = 1\<rparr> (fresh_req evt1) =
     (\<lparr>rows = [evt1_row pending None], next_id = 2\<rparr>,
      Next ((fresh_req evt1)\<lparr>eventDbId := Some 1\<rparr>))"
    using new by (simp add: evt1_row_def fresh_req_def evt1_def or_unknown_def)
  have 2: "webhook_callback no_faults 99
        \<lparr>store = \<lparr>rows = [evt1_row processed (Some 7)], next_id = 2\<rparr>, invocations = 1\<rparr>
        (fresh_req evt1) =
       (\<lparr>store = \<lparr>rows = [evt1_row processed (Some 7)], next_id = 2\<rparr>, invocations = 1\<rparr>,
        \<lparr>http_status = 200, success = True,
          message = ''Event already processed (idempotent response)'',
          resp_event_id = Some ''evt_1'', resp_processed_at = Some 7, resp_data = None\<rparr>)"
    using fin by (simp add: a evt1_row_def)
  have 3: "webhook_callback no_faults 99
        \<lparr>store = \<lparr>rows = [evt1_row pending None], next_id = 2\<rparr>, invocations = 0\<rparr>
        (fresh_req evt1) =
       (\<lparr>store = \<lparr>rows = [evt1_row pending None], next_id = 2\<rparr>, invocations = 0\<rparr>,
        \<lparr>http_status = 409, success = False,
          message = ''Event is currently being processed'',
          resp_event_id = Some ''evt_1'', resp_processed_at = None, resp_data = None\<rparr>)"
    using busy by (simp add: a evt1_row_def)
  from 1 2 3 show ?thesis by blast
qed

text \<open>
  Claim C2. When the INSERT of the pending record is rejected with the duplicate-key error
  of the UNIQUE constraint, the middleware answers 200 with \<^verbatim>\<open>success: true\<close>, leaves the
  table as it is and does not pass the request on, so the event is not processed again and
  the caller sees no error. With no driver error the INSERT is rejected in exactly this way
  whenever a record with the identifier is in the table by then; on the whole route, a
  request that found no record and lost the race leaves table and invocation count unchanged.
\<close>

theorem duplicate_key_reports_success:
  "(insert_pending fault d eid (or_unknown (event_type (body rq))) (body rq) = Inl ER_DUP_ENTRY \<longrightarrow>
      do_insert fault d rq eid =
        (d, Responded \<lparr>http_status = 200, success = True,
              message = ''Event already processed (duplicate detected)'',
              resp_event_id = Some eid, resp_processed_at = None, resp_data = None\<rparr>))
   \<and> (eid \<in> r_event_id ` set (rows d) \<longrightarrow> insert_pending None d eid ty p = Inl ER_DUP_ENTRY)
   \<and> (event_id (body rq) = Some eid \<and> eid \<noteq> [] \<and> eid \<notin> r_event_id ` set (rows (store w))
        \<and> f_select fl = None \<and> f_insert fl = Some ER_DUP_ENTRY \<longrightarrow>
      webhook_callback fl now w rq =
        (w, \<lparr>http_status = 200, success = True,
              message = ''Event already processed (duplicate detected)'',
              resp_event_id = Some eid, resp_processed_at = None, resp_data = None\<rparr>))"
proof (intro conjI impI)
  assume "insert_pending fault d eid (or_unknown (event_type (body rq))) (body rq) = Inl ER_DUP_ENTRY"
  then show "do_insert fault d rq eid =
        (d, Responded \<lparr>http_status = 200, success = True,
              message = ''Event already processed (duplicate detected)'',
              resp_event_id = Some eid, resp_processed_at = None, resp_data = None\<rparr>)"
    by (simp add: do_insert_def on_query_error_def json_response_def)
next
  assume "eid \<in> r_event_id ` set (rows d)"
  then show "insert_pending None d eid ty p = Inl ER_DUP_ENTRY"
    by (simp add: insert_pending_def)
next
  assume h: "event_id (body rq) = Some eid \<and> eid \<noteq> [] \<and> eid \<notin> r_event_id ` set (rows (store w))
        \<and> f_select fl = None \<and> f_insert fl = Some ER_DUP_ENTRY"
  then have "filter (\<lambda>r. r_event_id r = eid) (rows (store w)) = []"
    by (auto simp: filter_empty_conv)
  with h show "webhook_callback fl now w rq =
        (w, \<lparr>http_status = 200, success = True,
              message = ''Event already processed (duplicate detected)'',
              resp_event_id = Some eid, resp_processed_at = None, resp_data = None\<rparr>)"
    by (simp add: webhook_callback_def idempotencyMiddleware_def select_by_event_id_def
        after_select_def do_insert_def insert_pending_def on_query_error_def json_response_def)
qed

theorem duplicate_key_reports_success_witness:
  "insert_pending None \<lparr>rows = [evt1_row pending None], next_id = 2\<rparr> ''evt_1''
      (or_unknown (event_type (body (fresh_req evt1)))) (body (fresh_req evt1)) = Inl ER_DUP_ENTRY
   \<and> do_insert None \<lparr>rows = [evt1_row pending None], next_id = 2\<rparr> (fresh_req evt1) ''evt_1'' =
       (\<lparr>rows = [evt1_row pending None], next_id = 2\<rparr>,
        Responded \<lparr>http_status = 200, success = True,
          message = ''Event already processed (duplicate detected)'',
          resp_event_id = Some ''evt_1'', resp_processed_at = None, resp_data = None\<rparr>)
   \<and> webhook_callback (no_faults\<lparr>f_insert := Some ER_DUP_ENTRY\<rparr>) 99
        \<lparr>store = \<lparr>rows = [], next_id = 1\<rparr>, invocations = 0\<rparr> (fresh_req evt1) =
       (\<lparr>store = \<lparr>rows = [], next_id = 1\<rparr>, invocations = 0\<rparr>,
        \<lparr>http_status = 200, success = True,
          message = ''Event already processed (duplicate detected)'',
          resp_event_id = Some ''evt_1'', resp_processed_at = None, resp_data = None\<rparr>)"
proof -
  have m: "''evt_1'' \<in> r_event_id ` set (rows \<lparr>rows = [evt1_row pending None], next_id = 2\<rparr>)"
    by (simp add: evt1_row_def)
  note t1 = duplicate_key_reports_success [of None "\<lparr>rows = [evt1_row pending None], next_id = 2\<rparr>"
      "''evt_1''" "fresh_req evt1" "or_unknown (event_type (body (fresh_req evt1)))"
      "body (fresh_req evt1)" "\<lparr>store = \<lparr>rows = [], next_id = 1\<rparr>, invocations = 0\<rparr>"
      "no_faults\<lparr>f_insert := Some ER_DUP_ENTRY\<rparr>" 99]
  have h3: "event_id (body (fresh_req evt1)) = Some ''evt_1'' \<and> ''evt_1'' \<noteq> []
      \<and> ''evt_1'' \<notin> r_event_id ` set (rows (store \<lparr>store = \<lparr>rows = [], next_id = 1\<rparr>, invocations = 0\<rparr>))
      \<and> f_select (no_faults\<lparr>f_insert := Some ER_DUP_ENTRY\<rparr>) = None
      \<and> f_insert (no_faults\<lparr>f_insert := Some ER_DUP_ENTRY\<rparr>) = Some ER_DUP_ENTRY"
    by (simp add: fresh_req_def evt1_def no_faults_def)
  from t1 m h3 show ?thesis by blast
qed


subsection \<open>Retrying a failed event\<close>

lemma processEvent_phases:
  "processEvent fl now w b key retry =
     (case run_logic fl w b key retry of (w1, out) \<Rightarrow> finish fl now w1 b key out)"
  by (cases "if retry then update_where_id (f_retry fl) (store w) key
                   (\<lambda>r. r\<lparr>retry_count := Suc (retry_count r)\<rparr>) else Inr (store w)";
      cases "business_logic b")
    (simp_all add: processEvent_def run_logic_def finish_def split: prod.splits sum.splits)

lemma keeps_refl: "keeps d d"
  by (simp add: keeps_def)

lemma keeps_trans: "keeps a b \<Longrightarrow> keeps b c \<Longrightarrow> keeps a c"
  unfolding keeps_def by (intro conjI allI impI) (simp, blast)

lemma update_keeps:
  assumes "update_where_id fault d key f = Inr d'"
    and "\<And>r. r_event_id (f r) = r_event_id r"
    and "\<And>r. status (f r) = pending \<Longrightarrow> status r = pending"
  shows "keeps d d'"
proof (cases key)
  case None
  then show ?thesis using assms(1) by (auto simp: update_where_id_def keeps_def split: option.splits)
next
  case (Some k)
  then have r: "rows d' = map (\<lambda>r. if rid r = k then f r else r) (rows d)"
    using assms(1) by (auto simp: update_where_id_def split: option.splits)
  show ?thesis
    unfolding keeps_def r using assms(2,3) by (auto simp: o_def)
qed

lemma mark_failed_keeps: "keeps d (fst (mark_failed fault d key err))"
proof (cases "update_where_id fault d key (\<lambda>r. r\<lparr>status := failed\<rparr>)")
  case (Inl a)
  then show ?thesis by (simp add: mark_failed_def keeps_refl)
next
  case (Inr d')
  then have "keeps d d'" by (rule update_keeps) simp_all
  then show ?thesis using Inr by (simp add: mark_failed_def)
qed

lemma run_logic_keeps: "keeps (store w) (store (fst (run_logic fl w b key retry)))"
proof (cases "retry")
  case False
  then show ?thesis by (simp add: run_logic_def keeps_refl)
next
  case True
  show ?thesis
  proof (cases "update_where_id (f_retry fl) (store w) key (\<lambda>r. r\<lparr>retry_count := Suc (retry_count r)\<rparr>)")
    case (Inl a)
    then show ?thesis using True by (simp add: run_logic_def keeps_refl)
  next
    case (Inr d')
    then have "keeps (store w) d'" by (rule update_keeps) simp_all
    then show ?thesis using True Inr by (simp add: run_logic_def)
  qed
qed

lemma finish_keeps: "keeps (store w) (store (fst (finish fl now w b key out)))"
proof (cases out)
  case (Inl e)
  then show ?thesis
    using mark_failed_keeps [of "store w" "f_failed fl" key e]
    by (auto simp: finish_def split: prod.splits)
next
  case (Inr pd)
  show ?thesis
  proof (cases "update_where_id (f_processed fl) (store w) key
                  (\<lambda>r. r\<lparr>status := processed, processed_at := Some now\<rparr>)")
    case (Inl e)
    then show ?thesis
      using Inr mark_failed_keeps [of "store w" "f_failed fl" key "SqlError e"]
      by (auto simp: finish_def split: prod.splits)
  next
    case (Inr d')
    then have "keeps (store w) d'" by (rule update_keeps) simp_all
    then show ?thesis using Inr \<open>out = Inr pd\<close> by (simp add: finish_def)
  qed
qed

lemma processEvent_keeps: "keeps (store w) (store (fst (processEvent fl now w b key retry)))"
  using run_logic_keeps [of w fl b key retry]
    finish_keeps [of "fst (run_logic fl w b key retry)" fl now b key "snd (run_logic fl w b key retry)"]
  by (simp add: processEvent_phases split: prod.splits) (metis fst_conv snd_conv keeps_trans)

lemma processEvent_invocations:
  "f_retry fl = None \<Longrightarrow>
   invocations (fst (processEvent fl now w b key retry)) = Suc (invocations w)"
  by (simp add: processEvent_phases run_logic_def finish_def update_where_id_def
      split: prod.splits sum.splits)

lemma handleCallback_world:
  "fst (handleCallback fl now w rq) = fst (processEvent fl now w (body rq) (eventDbId rq) (isRetry rq))"
  by (simp add: handleCallback_def split: prod.splits sum.splits)

lemma middleware_retry:
  assumes "event_id (body rq) = Some eid" and "eid \<noteq> []"
    and "find (\<lambda>r. r_event_id r = eid) (rows d) = Some r" and "status r = failed"
  shows "idempotencyMiddleware None ins_fault d rq =
           (d, Next (rq\<lparr>isRetry := True, existingEventId := Some (rid r)\<rparr>))"
proof -
  obtain rest where "filter (\<lambda>r. r_event_id r = eid) (rows d) = r # rest"
    using filter_find_Some [of "\<lambda>r. r_event_id r = eid" "rows d" r] assms(3) by auto
  then show ?thesis
    using assms
    by (simp add: idempotencyMiddleware_def select_by_event_id_def after_select_def)
qed

text \<open>
  What the retry path does whatever handle reaches \<^verbatim>\<open>processEvent\<close>: the middleware lets
  the request go on as a retry, with the record's id attached as \<^verbatim>\<open>req.existingEventId\<close>,
  and leaves the table as it is; on the whole route the business logic is entered once more
  and no row is added.
\<close>

lemma retry_admits_failed_record:
  assumes "event_id (body rq) = Some eid" and "eid \<noteq> []"
    and "find (\<lambda>r. r_event_id r = eid) (rows d) = Some r" and "status r = failed"
  shows "idempotencyMiddleware None ins_fault d rq =
           (d, Next (rq\<lparr>isRetry := True, existingEventId := Some (rid r)\<rparr>))
    \<and> (f_select fl = None \<and> f_retry fl = None \<longrightarrow>
          invocations (fst (webhook_callback fl now \<lparr>store = d, invocations = n\<rparr> rq)) = Suc n
          \<and> map r_event_id (rows (store (fst (webhook_callback fl now
                 \<lparr>store = d, invocations = n\<rparr> rq)))) = map r_event_id (rows d)
          \<and> ((\<forall>r'\<in>set (rows d). r_event_id r' = eid \<longrightarrow> status r' \<noteq> pending) \<longrightarrow>
               (\<forall>r'\<in>set (rows (store (fst (webhook_callback fl now
                     \<lparr>store = d, invocations = n\<rparr> rq)))).
                  r_event_id r' = eid \<longrightarrow> status r' \<noteq> pending)))"
proof (intro conjI impI)
  show mw: "idempotencyMiddleware None ins_fault d rq =
           (d, Next (rq\<lparr>isRetry := True, existingEventId := Some (rid r)\<rparr>))"
    using assms by (rule middleware_retry)
  assume fl: "f_select fl = None \<and> f_retry fl = None"
  let ?w = "\<lparr>store = d, invocations = n\<rparr>"
  have route: "fst (webhook_callback fl now ?w rq) =
      fst (processEvent fl now ?w (body rq) (eventDbId rq) True)"
    using fl middleware_retry [OF assms, of "f_insert fl"]
    by (simp add: webhook_callback_def handleCallback_world)
  show "invocations (fst (webhook_callback fl now ?w rq)) = Suc n"
    using fl by (simp add: route processEvent_invocations)
  have k: "keeps d (store (fst (webhook_callback fl now ?w rq)))"
    using processEvent_keeps [of ?w fl now "body rq" "eventDbId rq" True] by (simp add: route)
  show "map r_event_id (rows (store (fst (webhook_callback fl now ?w rq)))) = map r_event_id (rows d)"
    using k by (simp add: keeps_def)
  assume "\<forall>r'\<in>set (rows d). r_event_id r' = eid \<longrightarrow> status r' \<noteq> pending"
  then show "\<forall>r'\<in>set (rows (store (fst (webhook_callback fl now ?w rq)))).
                  r_event_id r' = eid \<longrightarrow> status r' \<noteq> pending"
    using k unfolding keeps_def by blast
qed

text \<open>
  The controller passes on \<^verbatim>\<open>req.eventDbId\<close>, which the retry branch does not set. With no
  handle the updates of \<^verbatim>\<open>processEvent\<close> match no row: the table after a retry is the
  table before it, whatever the business logic did.
\<close>

lemma retry_handle_is_lost:
  assumes "event_id (body rq) = Some eid" and "eid \<noteq> []"
    and "find (\<lambda>r. r_event_id r = eid) (rows d) = Some r" and "status r = failed"
    and "eventDbId rq = None"
  shows "store (fst (webhook_callback no_faults now \<lparr>store = d, invocations = n\<rparr> rq)) = d"
proof -
  have "fst (webhook_callback no_faults now \<lparr>store = d, invocations = n\<rparr> rq) =
      fst (processEvent no_faults now \<lparr>store = d, invocations = n\<rparr> (body rq) None True)"
    using middleware_retry [OF assms(1-4), of None] assms(5)
    by (simp add: webhook_callback_def handleCallback_world no_faults_def)
  then show ?thesis
    by (simp add: processEvent_phases run_logic_def finish_def mark_failed_def
        update_where_id_def no_faults_def split: prod.splits sum.splits)
qed

text \<open>
  Given the handle, \<^verbatim>\<open>processEvent\<close> does what its comments say ("Increment retry count
  if this is a retry", "Mark event as processed"): the same row, its counter one higher, its
  status processed.
\<close>

lemma retry_with_handle:
  "processEvent no_faults 99
      \<lparr>store = \<lparr>rows = [evt1_row failed None], next_id = 2\<rparr>, invocations = 1\<rparr>
      evt1 (Some 1) True =
     (\<lparr>store = \<lparr>rows = [(evt1_row processed (Some 99))\<lparr>retry_count := 1\<rparr>], next_id = 2\<rparr>,
       invocations = 2\<rparr>,
      Inr (Some ''evt_1'', OrderResult (Some ''42'') ''confirmed''))"
  by (simp add: processEvent_def update_where_id_def business_logic_def handleOrderCreated_def
      get_prop_def no_faults_def evt1_def evt1_row_def)

text \<open>
  Claim C3. Resubmitting an event whose record is failed is to retry it on the same row,
  with the retry counter incremented and the status able to reach processed. The middleware
  admits the resubmission as a retry and attaches the record's id as
  \<^verbatim>\<open>req.existingEventId\<close>; the controller reads \<^verbatim>\<open>req.eventDbId\<close>, which is not set. At the
  event of the scenario, stored as failed and resubmitted with business logic that succeeds,
  the answer is 200 "processed successfully", and the record is still failed with its retry
  counter at 0: the code does not do what the claim and its own comments say.
\<close>

theorem retry_leaves_record_failed:
  "idempotencyMiddleware None None \<lparr>rows = [evt1_row failed None], next_id = 2\<rparr>
      (fresh_req evt1) =
     (\<lparr>rows = [evt1_row failed None], next_id = 2\<rparr>,
      Next ((fresh_req evt1)\<lparr>isRetry := True, existingEventId := Some 1\<rparr>))
   \<and> eventDbId ((fresh_req evt1)\<lparr>isRetry := True, existingEventId := Some 1\<rparr>) = None
   \<and> webhook_callback no_faults 99
        \<lparr>store = \<lparr>rows = [evt1_row failed None], next_id = 2\<rparr>, invocations = 1\<rparr>
        (fresh_req evt1) =
       (\<lparr>store = \<lparr>rows = [evt1_row failed None], next_id = 2\<rparr>, invocations = 2\<rparr>,
        \<lparr>http_status = 200, success = True, message = ''Webhook processed successfully'',
          resp_event_id = Some ''evt_1'', resp_processed_at = None,
          resp_data = Some (OrderResult (Some ''42'') ''confirmed'')\<rparr>)
   \<and> status (evt1_row failed None) = failed
   \<and> retry_count (evt1_row failed None) = 0"
  by (simp add: webhook_callback_def idempotencyMiddleware_def select_by_event_id_def
      after_select_def handleCallback_def callback_answer_def processEvent_def
      update_where_id_def business_logic_def handleOrderCreated_def get_prop_def json_response_def
      no_faults_def fresh_req_def evt1_def evt1_row_def)

subsection \<open>Concurrent submissions of one event\<close>

lemma step_arrived_none:
  assumes "event_id b = Some eid" and "eid \<noteq> []" and "the_rows eid w = []"
  shows "proc_step now w (Arrived (fresh_req b)) = (w, Inserting (fresh_req b) eid)"
  using assms
  by (simp add: proc_step_def fresh_req_def select_by_event_id_def after_select_def the_rows_def)

lemma step_arrived_pending:
  assumes "event_id b = Some eid" and "eid \<noteq> []" and "the_rows eid w = [r]"
    and "status r = pending"
  shows "proc_step now w (Arrived (fresh_req b)) =
     (w, Finished \<lparr>http_status = 409, success = False,
            message = ''Event is currently being processed'',
            resp_event_id = Some eid, resp_processed_at = None, resp_data = None\<rparr>)"
  using assms
  by (simp add: proc_step_def fresh_req_def select_by_event_id_def after_select_def the_rows_def
      after_middleware_def json_response_def)

lemma step_arrived_processed:
  assumes "event_id b = Some eid" and "eid \<noteq> []" and "the_rows eid w = [r]"
    and "status r = processed"
  shows "proc_step now w (Arrived (fresh_req b)) =
     (w, Finished \<lparr>http_status = 200, success = True,
            message = ''Event already processed (idempotent response)'',
            resp_event_id = Some eid, resp_processed_at = processed_at r, resp_data = None\<rparr>)"
  using assms
  by (simp add: proc_step_def fresh_req_def select_by_event_id_def after_select_def the_rows_def
      after_middleware_def json_response_def)

lemma the_rows_empty_iff: "the_rows eid w = [] \<longleftrightarrow> eid \<notin> r_event_id ` set (rows (store w))"
  by (auto simp: the_rows_def filter_empty_conv)

lemma step_inserting_none:
  assumes "the_rows eid w = []"
  shows "proc_step now w (Inserting (fresh_req b) eid) =
     (w\<lparr>store := (store w)\<lparr>rows := rows (store w) @
            [\<lparr>rid = next_id (store w), r_event_id = eid,
              r_event_type = or_unknown (event_type b), payload = b,
              status = pending, retry_count = 0, processed_at = None\<rparr>],
          next_id := Suc (next_id (store w))\<rparr>\<rparr>,
      Admitted ((fresh_req b)\<lparr>eventDbId := Some (next_id (store w))\<rparr>))"
  using assms
  by (simp add: proc_step_def do_insert_def insert_pending_def the_rows_empty_iff
      after_middleware_def fresh_req_def)

lemma step_inserting_dup:
  assumes "the_rows eid w \<noteq> []"
  shows "proc_step now w (Inserting (fresh_req b) eid) =
     (w, Finished \<lparr>http_status = 200, success = True,
            message = ''Event already processed (duplicate detected)'',
            resp_event_id = Some eid, resp_processed_at = None, resp_data = None\<rparr>)"
  using assms
  by (simp add: proc_step_def do_insert_def insert_pending_def the_rows_empty_iff
      after_middleware_def on_query_error_def json_response_def)

lemma step_admitted:
  "proc_step now w (Admitted (admitted_req b r)) =
     (w\<lparr>invocations := Suc (invocations w)\<rparr>, Handled (admitted_req b r) (business_logic b))"
  by (simp add: proc_step_def run_logic_def admitted_req_def fresh_req_def)

lemma step_handled:
  assumes "event_id b = Some eid"
  shows "proc_step now w (Handled (admitted_req b r) (Inr pd)) =
     (w\<lparr>store := (store w)\<lparr>rows := map (\<lambda>x. if rid x = rid r
            then x\<lparr>status := processed, processed_at := Some now\<rparr> else x) (rows (store w))\<rparr>\<rparr>,
      Finished \<lparr>http_status = 200, success = True, message = ''Webhook processed successfully'',
          resp_event_id = Some eid, resp_processed_at = None, resp_data = Some pd\<rparr>)"
  using assms
  by (simp add: proc_step_def finish_def admitted_req_def fresh_req_def no_faults_def
      update_where_id_def callback_answer_def json_response_def)

lemma count_update:
  "i < length ps \<Longrightarrow>
   length (filter P (ps[i := p])) + (if P (ps ! i) then 1 else 0) =
     length (filter P ps) + (if P p then 1 else 0)"
proof (induction ps arbitrary: i)
  case Nil
  then show ?case by simp
next
  case (Cons a ps)
  then show ?case by (cases i) auto
qed

lemma none_counted: "length (filter P ps) = 0 \<Longrightarrow> p \<in> set ps \<Longrightarrow> \<not> P p"
  by (auto simp: filter_empty_conv)

lemma one_counted:
  assumes "length (filter P ps) = 1" and "i < length ps" and "P (ps ! i)"
    and "j < length ps" and "j \<noteq> i"
  shows "\<not> P (ps ! j)"
proof
  assume pj: "P (ps ! j)"
  show False
    using assms pj
  proof (induction ps arbitrary: i j)
    case Nil
    then show ?case by simp
  next
    case (Cons a ps)
    show ?case
    proof (cases i)
      case 0
      then obtain j' where j: "j = Suc j'" using Cons.prems(5) by (cases j) auto
      then have "ps ! j' \<in> set ps" using Cons.prems(4) by simp
      then have "filter P ps \<noteq> []" using Cons.prems(6) j by (auto simp: filter_empty_conv)
      then show ?thesis using Cons.prems(1,3) 0 by (cases "filter P ps") auto
    next
      case (Suc i')
      show ?thesis
      proof (cases j)
        case 0
        have "ps ! i' \<in> set ps" using Cons.prems(2) Suc by simp
        then have "filter P ps \<noteq> []" using Cons.prems(3) Suc by (auto simp: filter_empty_conv)
        then show ?thesis using Cons.prems(1,6) 0 by (cases "filter P ps") auto
      next
        case (Suc j')
        have "\<not> P a"
        proof
          assume "P a"
          then have "filter P ps = []" using Cons.prems(1) by simp
          moreover have "ps ! i' \<in> set ps" using Cons.prems(2) \<open>i = Suc i'\<close> by simp
          ultimately show False using Cons.prems(3) \<open>i = Suc i'\<close> by (auto simp: filter_empty_conv)
        qed
        then show ?thesis
          using Cons.IH [of i' j'] Cons.prems \<open>i = Suc i'\<close> Suc by simp
      qed
    qed
  qed
qed

lemma nonowner_mono:
  assumes "\<not> owner q" and "proc_inv eid b pd n0 w q"
    and "the_rows eid w \<noteq> [] \<Longrightarrow> the_rows eid w' \<noteq> []"
  shows "proc_inv eid b pd n0 w' q"
  using assms
  by (cases q) (auto simp: proc_inv_def owner_def new_answer_def)

lemma guard_inv_update:
  assumes inv: "guard_inv eid b pd n0 s" and i: "i < length (procs s)"
    and w1: "length (the_rows eid w') \<le> 1"
    and w2: "\<forall>r\<in>set (the_rows eid w'). status r \<noteq> failed"
    and w3: "the_rows eid w' = [] \<Longrightarrow> invocations w' = n0"
    and w4: "invocations w' = n0 \<or> invocations w' = Suc n0"
    and p': "proc_inv eid b pd n0 w' p'"
    and others: "\<And>j. j < length (procs s) \<Longrightarrow> j \<noteq> i \<Longrightarrow> proc_inv eid b pd n0 w' (procs s ! j)"
    and count: "(if owner p' then 1 else 0) + length (filter owner (procs s)) =
        (if owner (procs s ! i) then 1 else 0) + (if the_rows eid w' = [] then 0 else (1::nat))"
  shows "guard_inv eid b pd n0 \<lparr>sys_world = w', procs = (procs s)[i := p']\<rparr>"
proof -
  have all: "\<forall>p\<in>set ((procs s)[i := p']). proc_inv eid b pd n0 w' p"
  proof
    fix p assume "p \<in> set ((procs s)[i := p'])"
    then obtain j where j: "j < length (procs s)" "p = (procs s)[i := p'] ! j"
      by (auto simp: in_set_conv_nth)
    show "proc_inv eid b pd n0 w' p"
      using j p' others [of j] i by (cases "j = i") simp_all
  qed
  have cnt: "length (filter owner ((procs s)[i := p'])) = (if the_rows eid w' = [] then 0 else 1)"
    using count_update [OF i, of owner p'] count by (simp split: if_splits)
  show ?thesis
    unfolding guard_inv_def using w1 w2 w3 w4 all cnt by simp
qed

lemma guard_inv_same_world:
  assumes inv: "guard_inv eid b pd n0 s" and i: "i < length (procs s)"
    and p': "proc_inv eid b pd n0 (sys_world s) p'"
    and o: "\<not> owner (procs s ! i)" "\<not> owner p'"
  shows "guard_inv eid b pd n0 \<lparr>sys_world = sys_world s, procs = (procs s)[i := p']\<rparr>"
proof (rule guard_inv_update [OF inv i])
  show "proc_inv eid b pd n0 (sys_world s) (procs s ! j)" if "j < length (procs s)" for j
    using inv that by (simp add: guard_inv_def)
qed (use inv p' o in \<open>simp_all add: guard_inv_def\<close>)

lemma the_rows_map:
  assumes "\<And>x. r_event_id (g x) = r_event_id x"
  shows "the_rows eid (w\<lparr>store := (store w)\<lparr>rows := map g (rows (store w))\<rparr>\<rparr>) =
           map g (the_rows eid w)"
  using assms by (simp add: the_rows_def filter_map o_def)

lemma step_proc:
  assumes "i < length (procs s)"
  shows "step (i, now) s =
     \<lparr>sys_world = fst (proc_step now (sys_world s) (procs s ! i)),
      procs = (procs s)[i := snd (proc_step now (sys_world s) (procs s ! i))]\<rparr>"
  using assms by (simp add: step_def split: prod.splits)

lemma step_inv:
  assumes b: "event_id b = Some eid" "eid \<noteq> []" "business_logic b = Inr pd"
    and inv: "guard_inv eid b pd n0 s"
  shows "guard_inv eid b pd n0 (step (i, now) s)"
proof (cases "i < length (procs s)")
  case False
  then show ?thesis using inv by (simp add: step_def)
next
  case i: True
  let ?w = "sys_world s"
  let ?p = "procs s ! i"
  have pi: "proc_inv eid b pd n0 ?w ?p"
    using inv i by (simp add: guard_inv_def)
  have len: "length (the_rows eid ?w) \<le> 1"
    and nofail: "\<forall>r\<in>set (the_rows eid ?w). status r \<noteq> failed"
    and fresh: "the_rows eid ?w = [] \<Longrightarrow> invocations ?w = n0"
    and cnt: "length (filter owner (procs s)) = (if the_rows eid ?w = [] then 0 else 1)"
    using inv by (simp_all add: guard_inv_def)
  have others_nonowner: "\<not> owner (procs s ! j)"
    if "owner ?p \<or> the_rows eid ?w = []" "j < length (procs s)" "j \<noteq> i" for j
  proof (cases "the_rows eid ?w = []")
    case True
    then show ?thesis using cnt that none_counted [of owner "procs s" "procs s ! j"] by simp
  next
    case False
    then show ?thesis using cnt that one_counted [of owner "procs s" i j] i by simp
  qed
  have others: "proc_inv eid b pd n0 w' (procs s ! j)"
    if "owner ?p \<or> the_rows eid ?w = []" "the_rows eid ?w \<noteq> [] \<Longrightarrow> the_rows eid w' \<noteq> []"
      "j < length (procs s)" "j \<noteq> i" for j w'
    using nonowner_mono [OF others_nonowner [OF that(1,3,4)], of eid b pd n0 ?w w'] inv that
    by (simp add: guard_inv_def)
  show ?thesis
  proof (cases ?p)
    case (Arrived rq)
    then have rq: "rq = fresh_req b" using pi by (simp add: proc_inv_def)
    have no: "\<not> owner ?p" using Arrived by (simp add: owner_def)
    show ?thesis
    proof (cases "the_rows eid ?w")
      case Nil
      have "guard_inv eid b pd n0
          \<lparr>sys_world = ?w, procs = (procs s)[i := Inserting (fresh_req b) eid]\<rparr>"
        using no by (intro guard_inv_same_world [OF inv i]) (simp_all add: proc_inv_def owner_def)
      then show ?thesis
        using step_arrived_none [OF b(1,2) Nil] Arrived rq by (simp add: step_proc [OF i])
    next
      case (Cons r rest)
      then have rows: "the_rows eid ?w = [r]" using len by simp
      have st: "status r = pending \<or> status r = processed"
        using nofail rows by (cases "status r") simp_all
      then show ?thesis
      proof
        assume pe: "status r = pending"
        have "guard_inv eid b pd n0
            \<lparr>sys_world = ?w, procs = (procs s)[i := Finished \<lparr>http_status = 409, success = False,
              message = ''Event is currently being processed'',
              resp_event_id = Some eid, resp_processed_at = None, resp_data = None\<rparr>]\<rparr>"
          using no rows
          by (intro guard_inv_same_world [OF inv i])
            (simp_all add: proc_inv_def owner_def duplicate_in_flight_def)
        then show ?thesis
          using step_arrived_pending [OF b(1,2) rows pe] Arrived rq by (simp add: step_proc [OF i])
      next
        assume pr: "status r = processed"
        have "guard_inv eid b pd n0
            \<lparr>sys_world = ?w, procs = (procs s)[i := Finished \<lparr>http_status = 200, success = True,
              message = ''Event already processed (idempotent response)'',
              resp_event_id = Some eid, resp_processed_at = processed_at r, resp_data = None\<rparr>]\<rparr>"
          using no rows
          by (intro guard_inv_same_world [OF inv i])
            (simp_all add: proc_inv_def owner_def already_completed_def)
        then show ?thesis
          using step_arrived_processed [OF b(1,2) rows pr] Arrived rq by (simp add: step_proc [OF i])
      qed
    qed
  next
    case (Inserting rq e)
    then have rq: "rq = fresh_req b" "e = eid" using pi by (simp_all add: proc_inv_def)
    have no: "\<not> owner ?p" using Inserting by (simp add: owner_def)
    show ?thesis
    proof (cases "the_rows eid ?w = []")
      case True
      let ?r = "\<lparr>rid = next_id (store ?w), r_event_id = eid,
              r_event_type = or_unknown (event_type b), payload = b,
              status = pending, retry_count = 0, processed_at = None\<rparr>"
      let ?w' = "?w\<lparr>store := (store ?w)\<lparr>rows := rows (store ?w) @ [?r],
          next_id := Suc (next_id (store ?w))\<rparr>\<rparr>"
      have rows': "the_rows eid ?w' = [?r]"
        using True by (simp add: the_rows_def)
      have "guard_inv eid b pd n0
          \<lparr>sys_world = ?w', procs = (procs s)[i := Admitted (admitted_req b ?r)]\<rparr>"
      proof (rule guard_inv_update [OF inv i])
        show "proc_inv eid b pd n0 ?w' (Admitted (admitted_req b ?r))"
          using rows' fresh [OF True] by (simp add: proc_inv_def)
        show "proc_inv eid b pd n0 ?w' (procs s ! j)" if "j < length (procs s)" "j \<noteq> i" for j
          using others [of ?w' j] True that by simp
        show "(if owner (Admitted (admitted_req b ?r)) then 1 else 0) + length (filter owner (procs s)) =
            (if owner ?p then 1 else 0) + (if the_rows eid ?w' = [] then 0 else (1::nat))"
          using cnt True no rows' by (simp add: owner_def)
      qed (use rows' fresh [OF True] in simp_all)
      then show ?thesis
        using step_inserting_none [OF True, of now b] Inserting rq
        by (simp add: step_proc [OF i] admitted_req_def)
    next
      case False
      have "guard_inv eid b pd n0
          \<lparr>sys_world = ?w, procs = (procs s)[i := Finished \<lparr>http_status = 200, success = True,
            message = ''Event already processed (duplicate detected)'',
            resp_event_id = Some eid, resp_processed_at = None, resp_data = None\<rparr>]\<rparr>"
        using no False
        by (intro guard_inv_same_world [OF inv i])
          (simp_all add: proc_inv_def owner_def already_completed_def)
      then show ?thesis
        using step_inserting_dup [OF False, of now b] Inserting rq by (simp add: step_proc [OF i])
    qed
  next
    case (Admitted rq)
    then obtain r where r: "the_rows eid ?w = [r]" "status r = pending" "rq = admitted_req b r"
      and n: "invocations ?w = n0"
      using pi by (auto simp: proc_inv_def split: list.splits)
    have ow: "owner ?p" using Admitted by (simp add: owner_def)
    let ?w' = "?w\<lparr>invocations := Suc (invocations ?w)\<rparr>"
    have rows': "the_rows eid ?w' = [r]" using r by (simp add: the_rows_def)
    have "guard_inv eid b pd n0
        \<lparr>sys_world = ?w', procs = (procs s)[i := Handled (admitted_req b r) (Inr pd)]\<rparr>"
    proof (rule guard_inv_update [OF inv i])
      show "proc_inv eid b pd n0 ?w' (Handled (admitted_req b r) (Inr pd))"
        using rows' r n by (simp add: proc_inv_def)
      show "proc_inv eid b pd n0 ?w' (procs s ! j)" if "j < length (procs s)" "j \<noteq> i" for j
        using others [of ?w' j] ow rows' that by simp
      show "(if owner (Handled (admitted_req b r) (Inr pd)) then 1 else 0)
            + length (filter owner (procs s)) =
          (if owner ?p then 1 else 0) + (if the_rows eid ?w' = [] then 0 else (1::nat))"
        using cnt r ow rows' by (simp add: owner_def)
    qed (use rows' r n in simp_all)
    then show ?thesis
      using step_admitted [of now ?w b r] Admitted r b(3) by (simp add: step_proc [OF i])
  next
    case (Handled rq out)
    then obtain r where r: "the_rows eid ?w = [r]" "status r = pending" "rq = admitted_req b r"
      and n: "invocations ?w = Suc n0" and out: "out = Inr pd"
      using pi by (auto simp: proc_inv_def split: list.splits)
    have ow: "owner ?p" using Handled by (simp add: owner_def)
    let ?g = "\<lambda>x. if rid x = rid r then x\<lparr>status := processed, processed_at := Some now\<rparr> else x"
    let ?w' = "?w\<lparr>store := (store ?w)\<lparr>rows := map ?g (rows (store ?w))\<rparr>\<rparr>"
    let ?a = "\<lparr>http_status = 200, success = True, message = ''Webhook processed successfully'',
          resp_event_id = Some eid, resp_processed_at = None, resp_data = Some pd\<rparr>"
    have rows': "the_rows eid ?w' = [r\<lparr>status := processed, processed_at := Some now\<rparr>]"
      using the_rows_map [of ?g eid ?w] r by simp
    have "guard_inv eid b pd n0 \<lparr>sys_world = ?w', procs = (procs s)[i := Finished ?a]\<rparr>"
    proof (rule guard_inv_update [OF inv i])
      show "proc_inv eid b pd n0 ?w' (Finished ?a)"
        using rows' n by (simp add: proc_inv_def new_answer_def)
      show "proc_inv eid b pd n0 ?w' (procs s ! j)" if "j < length (procs s)" "j \<noteq> i" for j
        using others [of ?w' j] ow rows' that by simp
      show "(if owner (Finished ?a) then 1 else 0) + length (filter owner (procs s)) =
          (if owner ?p then 1 else 0) + (if the_rows eid ?w' = [] then 0 else (1::nat))"
        using cnt r ow rows' by (simp add: owner_def)
    qed (use rows' n in simp_all)
    then show ?thesis
      using step_handled [OF b(1), of now ?w r pd] Handled r out by (simp add: step_proc [OF i])
  next
    case (Finished r)
    then have "step (i, now) s = s"
      using i by (simp add: step_proc [OF i] proc_step_def list_update_same_conv)
    then show ?thesis using inv by simp
  qed
qed

lemma run_inv:
  assumes "event_id b = Some eid" and "eid \<noteq> []" and "business_logic b = Inr pd"
  shows "guard_inv eid b pd n0 s \<Longrightarrow> guard_inv eid b pd n0 (run sched s)"
proof (induction sched arbitrary: s)
  case Nil
  then show ?case by simp
next
  case (Cons e sched)
  obtain i now where e: "e = (i, now)" by (cases e)
  have "guard_inv eid b pd n0 (step e s)"
    unfolding e using assms Cons.prems by (rule step_inv)
  then show ?case using Cons.IH by simp
qed

lemma init_inv:
  assumes "eid \<notin> r_event_id ` set (rows (store w))"
  shows "guard_inv eid b pd (invocations w) (submit_all w b N)"
  using assms
  by (simp add: guard_inv_def submit_all_def the_rows_empty_iff [symmetric] proc_inv_def owner_def)

lemma count_le: "(\<And>x. P x \<Longrightarrow> Q x) \<Longrightarrow> length (filter P xs) \<le> length (filter Q xs)"
  by (induction xs) auto

lemma is_new_owner: "is_new p \<Longrightarrow> owner p"
  by (cases p) (simp_all add: is_new_def owner_def)

lemma answered_owner: "answered p \<Longrightarrow> owner p = is_new p"
  by (cases p) (simp_all add: is_new_def owner_def answered_def)

lemma inv_answers:
  assumes "guard_inv eid b pd n0 s" and "Finished r \<in> set (procs s)"
  shows "new_answer eid pd r \<or> already_completed eid r \<or> duplicate_in_flight eid r"
  using assms by (auto simp: guard_inv_def proc_inv_def)

lemma inv_all_answered:
  assumes inv: "guard_inv eid b pd n0 s" and ne: "procs s \<noteq> []"
    and all: "\<forall>p\<in>set (procs s). answered p"
  shows "invocations (sys_world s) = Suc n0 \<and> length (filter is_new (procs s)) = 1
    \<and> length (the_rows eid (sys_world s)) = 1"
proof -
  obtain p where p: "p \<in> set (procs s)" using ne by (cases "procs s") auto
  then have "answered p" using all by simp
  then obtain r where "p = Finished r" by (cases p) (simp_all add: answered_def)

  then have rows: "the_rows eid (sys_world s) \<noteq> []"
    using inv p by (auto simp: guard_inv_def proc_inv_def split: list.splits)
  then have one: "length (filter owner (procs s)) = 1"
    using inv by (simp add: guard_inv_def)
  have "filter owner (procs s) = filter is_new (procs s)"
    using all by (intro filter_cong) (simp_all add: answered_owner)
  then have new: "length (filter is_new (procs s)) = 1" using one by simp
  then obtain q where "q \<in> set (filter is_new (procs s))"
    by (cases "filter is_new (procs s)") auto
  then have q: "q \<in> set (procs s)" "is_new q" by simp_all
  from q(2) obtain r' where r': "q = Finished r'" "message r' = ''Webhook processed successfully''"
    by (cases q) (simp_all add: is_new_def)
  have "proc_inv eid b pd n0 (sys_world s) q" using inv q by (simp add: guard_inv_def)
  then have "invocations (sys_world s) = Suc n0"
    using r' by (auto simp: proc_inv_def already_completed_def duplicate_in_flight_def)
  moreover have "length (the_rows eid (sys_world s)) = 1"
    using inv rows by (cases "the_rows eid (sys_world s)") (simp_all add: guard_inv_def)
  ultimately show ?thesis using new by simp
qed

lemma rank_after_middleware: "2 \<le> rank (after_middleware res)"
  by (cases res) (simp_all add: after_middleware_def)

lemma rank_after_middleware_pos:
  "Suc 0 \<le> rank (after_middleware res)" "Suc (Suc 0) \<le> rank (after_middleware res)"
  using rank_after_middleware [of res] by simp_all

lemma proc_step_rank: "min 4 (Suc (rank p)) \<le> rank (snd (proc_step now w p))"
proof (cases p)
  case (Arrived rq)
  then show ?thesis
    by (auto simp: proc_step_def rank_after_middleware_pos
        split: option.splits sum.splits lookup_outcome.splits)
next
  case (Inserting rq e)
  then show ?thesis
    by (simp add: proc_step_def rank_after_middleware_pos split: prod.splits)
qed (simp_all add: proc_step_def split: prod.splits)

lemma step_length: "length (procs (step e s)) = length (procs s)"
  by (cases e) (simp add: step_def split: prod.splits)

lemma run_length: "length (procs (run sched s)) = length (procs s)"
  by (induction sched arbitrary: s) (simp_all add: step_length)

lemma step_rank:
  assumes "j < length (procs s)"
  shows "min 4 (rank (procs s ! j) + (if fst e = j then 1 else 0)) \<le> rank (procs (step e s) ! j)"
proof (cases e)
  case (Pair i now)
  show ?thesis
  proof (cases "i = j")
    case True
    then show ?thesis
      using assms Pair proc_step_rank [of "procs s ! j" now "sys_world s"]
      by (simp add: step_proc)
  next
    case False
    then show ?thesis
      using assms Pair by (cases "i < length (procs s)") (simp_all add: step_proc, simp add: step_def)
  qed
qed

lemma run_rank:
  "j < length (procs s) \<Longrightarrow>
   min 4 (rank (procs s ! j) + count_list (map fst sched) j) \<le> rank (procs (run sched s) ! j)"
proof (induction sched arbitrary: s)
  case Nil
  then show ?case by simp
next
  case (Cons e sched)
  have "j < length (procs (step e s))" using Cons.prems by (simp add: step_length)
  from Cons.IH [OF this] step_rank [OF Cons.prems, of e]
  show ?case by (simp split: if_splits)
qed

lemma rank_answered: "4 \<le> rank p \<Longrightarrow> answered p"
  by (cases p) (simp_all add: answered_def)

lemma run_all_answered:
  assumes "\<forall>i<N. 4 \<le> count_list (map fst sched) i"
  shows "\<forall>p\<in>set (procs (run sched (submit_all w b N))). answered p"
proof
  fix p assume "p \<in> set (procs (run sched (submit_all w b N)))"
  then obtain j where j: "j < N" "p = procs (run sched (submit_all w b N)) ! j"
    by (auto simp: in_set_conv_nth run_length submit_all_def)
  have "j < length (procs (submit_all w b N))" using j by (simp add: submit_all_def)
  moreover have "4 \<le> count_list (map fst sched) j" using assms j by simp
  ultimately have "4 \<le> rank p" using run_rank [of j "submit_all w b N" sched] j by simp
  then show "answered p" by (rule rank_answered)
qed

text \<open>
  Claim C4, as the code has it. \<open>N\<close> submissions of one event, whose identifier has no
  record yet and whose business logic does not throw, interleaved in any order, with no
  driver error. At every moment the table holds at most one record of the identifier, the
  business logic has been entered at most once, at most one answer reports new processing,
  and every answer given reports new processing, already completed or in flight. Once every
  request has had its four turns, all \<open>N\<close> are answered, the business logic has been entered
  exactly once, exactly one answer reports new processing and the table holds exactly one
  record of the identifier.
\<close>

theorem concurrent_duplicates_processed_once:
  assumes "event_id b = Some eid" and "eid \<noteq> []" and "business_logic b = Inr pd"
    and "eid \<notin> r_event_id ` set (rows (store w))"
  shows "length (filter (\<lambda>r. r_event_id r = eid)
            (rows (store (sys_world (run sched (submit_all w b N)))))) \<le> 1
     \<and> invocations (sys_world (run sched (submit_all w b N))) \<le> Suc (invocations w)
     \<and> length (filter is_new (procs (run sched (submit_all w b N)))) \<le> 1
     \<and> (\<forall>r. Finished r \<in> set (procs (run sched (submit_all w b N))) \<longrightarrow>
           new_answer eid pd r \<or> already_completed eid r \<or> duplicate_in_flight eid r)
     \<and> (0 < N \<and> (\<forall>i<N. 4 \<le> count_list (map fst sched) i) \<longrightarrow>
           length (procs (run sched (submit_all w b N))) = N
           \<and> (\<forall>p\<in>set (procs (run sched (submit_all w b N))). answered p)
           \<and> invocations (sys_world (run sched (submit_all w b N))) = Suc (invocations w)
           \<and> length (filter is_new (procs (run sched (submit_all w b N)))) = 1
           \<and> length (filter (\<lambda>r. r_event_id r = eid)
                (rows (store (sys_world (run sched (submit_all w b N)))))) = 1)"
proof -
  let ?s = "run sched (submit_all w b N)"
  have inv: "guard_inv eid b pd (invocations w) ?s"
    using assms(1-3) init_inv [OF assms(4)] by (rule run_inv)
  have len: "length (procs ?s) = N"
    by (simp add: run_length submit_all_def)
  have 1: "length (filter (\<lambda>r. r_event_id r = eid) (rows (store (sys_world ?s)))) \<le> 1"
    using inv by (simp add: guard_inv_def the_rows_def)
  have 2: "invocations (sys_world ?s) \<le> Suc (invocations w)"
    using inv by (auto simp: guard_inv_def)
  have "length (filter is_new (procs ?s)) \<le> length (filter owner (procs ?s))"
    by (rule count_le) (rule is_new_owner)
  then have 3: "length (filter is_new (procs ?s)) \<le> 1"
    using inv by (simp add: guard_inv_def split: if_splits)
  have 4: "\<forall>r. Finished r \<in> set (procs ?s) \<longrightarrow>
      new_answer eid pd r \<or> already_completed eid r \<or> duplicate_in_flight eid r"
    using inv_answers [OF inv] by blast
  have 5: "length (procs ?s) = N \<and> (\<forall>p\<in>set (procs ?s). answered p)
      \<and> invocations (sys_world ?s) = Suc (invocations w)
      \<and> length (filter is_new (procs ?s)) = 1
      \<and> length (filter (\<lambda>r. r_event_id r = eid) (rows (store (sys_world ?s)))) = 1"
    if h: "0 < N \<and> (\<forall>i<N. 4 \<le> count_list (map fst sched) i)"
  proof -
    have all: "\<forall>p\<in>set (procs ?s). answered p"
      using h by (intro run_all_answered) simp
    have ne: "procs ?s \<noteq> []" using len h by auto
    from inv_all_answered [OF inv ne all] len all show ?thesis
      by (simp add: the_rows_def)
  qed
  from 1 2 3 4 5 show ?thesis by blast
qed

lemmas guard_defs = step_def proc_step_def submit_all_def fresh_req_def
  select_by_event_id_def after_select_def after_middleware_def do_insert_def insert_pending_def
  on_query_error_def json_response_def run_logic_def finish_def mark_failed_def
  update_where_id_def callback_answer_def business_logic_def handleOrderCreated_def
  get_prop_def no_faults_def or_unknown_def

text \<open>
  Both requests find no record; the second INSERT meets the duplicate key. The SELECT before
  the INSERT does not keep the table at one record per identifier, the constraint does.
\<close>

lemma two_racing_run:
  "run two_racing (submit_all empty_world evt1 2) =
     \<lparr>sys_world = \<lparr>store = \<lparr>rows = [evt1_row processed (Some 4)], next_id = 2\<rparr>,
                   invocations = 1\<rparr>,
      procs = [Finished \<lparr>http_status = 200, success = True,
                 message = ''Webhook processed successfully'',
                 resp_event_id = Some ''evt_1'', resp_processed_at = None,
                 resp_data = Some (OrderResult (Some ''42'') ''confirmed'')\<rparr>,
               Finished \<lparr>http_status = 200, success = True,
                 message = ''Event already processed (duplicate detected)'',
                 resp_event_id = Some ''evt_1'', resp_processed_at = None,
                 resp_data = None\<rparr>]\<rparr>"
  by (simp add: two_racing_def empty_world_def evt1_def evt1_row_def guard_defs
      numeral_2_eq_2)

text \<open>
  Claim C4 as stated fails. Two submissions of an event whose handler throws: the first
  inserts the record, fails and marks it failed; the second finds it failed, is admitted as a
  retry and runs the business logic again. The business logic is entered twice and both
  answers are 500, so the second answer reports neither already completed nor in flight.
\<close>

theorem failed_event_is_processed_again:
  "procs (run one_after_the_other (submit_all empty_world evt_no_data 2)) =
     [Finished \<lparr>http_status = 500, success = False, message = ''Failed to process webhook'',
        resp_event_id = None, resp_processed_at = None, resp_data = None\<rparr>,
      Finished \<lparr>http_status = 500, success = False, message = ''Failed to process webhook'',
        resp_event_id = None, resp_processed_at = None, resp_data = None\<rparr>]
   \<and> invocations (sys_world (run one_after_the_other (submit_all empty_world evt_no_data 2))) = 2"
  by (simp add: one_after_the_other_def empty_world_def evt_no_data_def guard_defs
      numeral_2_eq_2)

theorem concurrent_duplicates_processed_once_witness:
  "event_id evt1 = Some ''evt_1'' \<and> ''evt_1'' \<noteq> []
   \<and> business_logic evt1 = Inr (OrderResult (Some ''42'') ''confirmed'')
   \<and> ''evt_1'' \<notin> r_event_id ` set (rows (store empty_world))
   \<and> 0 < (2::nat)
   \<and> 4 \<le> count_list (map fst two_racing) 0 \<and> 4 \<le> count_list (map fst two_racing) 1
   \<and> invocations (sys_world (run two_racing (submit_all empty_world evt1 2))) = 1
   \<and> length (filter is_new (procs (run two_racing (submit_all empty_world evt1 2)))) = 1
   \<and> procs (run two_racing (submit_all empty_world evt1 2)) =
       [Finished \<lparr>http_status = 200, success = True,
          message = ''Webhook processed successfully'',
          resp_event_id = Some ''evt_1'', resp_processed_at = None,
          resp_data = Some (OrderResult (Some ''42'') ''confirmed'')\<rparr>,
        Finished \<lparr>http_status = 200, success = True,
          message = ''Event already processed (duplicate detected)'',
          resp_event_id = Some ''evt_1'', resp_processed_at = None,
          resp_data = None\<rparr>]"
proof -
  have a: "event_id evt1 = Some ''evt_1''" and b: "''evt_1'' \<noteq> []"
    and c: "business_logic evt1 = Inr (OrderResult (Some ''42'') ''confirmed'')"
    and d: "''evt_1'' \<notin> r_event_id ` set (rows (store empty_world))"
    by (simp_all add: evt1_def business_logic_def handleOrderCreated_def get_prop_def
        empty_world_def)
  have c0: "4 \<le> count_list (map fst two_racing) 0" and c1: "4 \<le> count_list (map fst two_racing) 1"
    by (simp_all add: two_racing_def)
  have "\<forall>i<2. 4 \<le> count_list (map fst two_racing) i"
  proof (intro allI impI)
    fix i :: nat assume "i < 2"
    then have "i = 0 \<or> i = 1" by auto
    then show "4 \<le> count_list (map fst two_racing) i" using c0 c1 by auto
  qed
  with concurrent_duplicates_processed_once [OF a b c d, of two_racing 2]
  have "invocations (sys_world (run two_racing (submit_all empty_world evt1 2))) =
          Suc (invocations empty_world)
      \<and> length (filter is_new (procs (run two_racing (submit_all empty_world evt1 2)))) = 1"
    by simp
  then show ?thesis
    using a b c d c0 c1 two_racing_run by (simp add: empty_world_def)
qed

text \<open>
  One request alone, run through its four steps, does what the route does: the steps are
  the route cut at its queries.
\<close>

lemma solo_admitted:
  "run [(0, t), (0, t)] \<lparr>sys_world = w, procs = [Admitted rq]\<rparr> =
     \<lparr>sys_world = fst (handleCallback no_faults t w rq),
      procs = [Finished (snd (handleCallback no_faults t w rq))]\<rparr>"
  by (simp add: step_def proc_step_def handleCallback_def processEvent_phases
      split: prod.splits)

lemma solo_after_middleware:
  "run [(0, t), (0, t)] \<lparr>sys_world = w, procs = [after_middleware res]\<rparr> =
     (case res of
        Responded r \<Rightarrow> \<lparr>sys_world = w, procs = [Finished r]\<rparr>
      | Next rq' \<Rightarrow> \<lparr>sys_world = fst (handleCallback no_faults t w rq'),
                     procs = [Finished (snd (handleCallback no_faults t w rq'))]\<rparr>)"
proof (cases res)
  case (Responded r)
  then show ?thesis by (simp add: after_middleware_def step_def proc_step_def)
next
  case (Next rq')
  then show ?thesis using solo_admitted [of t w rq'] by (simp add: after_middleware_def)
qed

lemma solo_steps:
  "run [(0, t), (0, t), (0, t), (0, t)] \<lparr>sys_world = w, procs = [Arrived rq]\<rparr> =
     \<lparr>sys_world = fst (webhook_callback no_faults t w rq),
      procs = [Finished (snd (webhook_callback no_faults t w rq))]\<rparr>"
proof -
  have sel: "f_select no_faults = None" "f_insert no_faults = None"
    by (simp_all add: no_faults_def)
  have fin: "run es \<lparr>sys_world = w', procs = [Finished r]\<rparr> =
      \<lparr>sys_world = w', procs = [Finished r]\<rparr>" if "\<forall>e\<in>set es. fst e = 0" for es w' r
    using that by (induction es) (auto simp: step_def proc_step_def)
  have answer: "run [(0, t), (0, t), (0, t)] \<lparr>sys_world = w', procs = [after_middleware res]\<rparr> =
      (case res of
         Responded r \<Rightarrow> \<lparr>sys_world = w', procs = [Finished r]\<rparr>
       | Next rq' \<Rightarrow> \<lparr>sys_world = fst (handleCallback no_faults t w' rq'),
                      procs = [Finished (snd (handleCallback no_faults t w' rq'))]\<rparr>)"
    for w' res
  proof -
    have "run [(0, t), (0, t), (0, t)] \<lparr>sys_world = w', procs = [after_middleware res]\<rparr> =
        run [(0, t)] (run [(0, t), (0, t)] \<lparr>sys_world = w', procs = [after_middleware res]\<rparr>)"
      by simp
    then show ?thesis
      using fin [of "[(0, t)]"]
      by (simp only: solo_after_middleware) (simp split: mw_result.splits)
  qed
  show ?thesis
  proof (cases "event_id (body rq)")
    case None
    then show ?thesis
      by (simp add: step_def proc_step_def webhook_callback_def idempotencyMiddleware_def)
  next
    case (Some eid)
    show ?thesis
    proof (cases "eid = []")
      case True
      then show ?thesis
        using Some
        by (simp add: step_def proc_step_def webhook_callback_def idempotencyMiddleware_def)
    next
      case False
      let ?rs = "filter (\<lambda>r. r_event_id r = eid) (rows (store w))"
      show ?thesis
      proof (cases "after_select rq eid ?rs")
        case (Decided res)
        have "run [(0, t), (0, t), (0, t), (0, t)] \<lparr>sys_world = w, procs = [Arrived rq]\<rparr> =
            run [(0, t), (0, t), (0, t)] \<lparr>sys_world = w, procs = [after_middleware res]\<rparr>"
          using Some False Decided
          by (simp add: step_def proc_step_def select_by_event_id_def)
        then show ?thesis
          using Some False Decided
          by (simp only: answer)
            (simp add: webhook_callback_def idempotencyMiddleware_def sel
              select_by_event_id_def split: mw_result.splits)
      next
        case NotFound
        obtain d' res where ins: "do_insert None (store w) rq eid = (d', res)"
          by (cases "do_insert None (store w) rq eid")
        have "run [(0, t), (0, t), (0, t), (0, t)] \<lparr>sys_world = w, procs = [Arrived rq]\<rparr> =
            run [(0, t), (0, t)] \<lparr>sys_world = w\<lparr>store := d'\<rparr>, procs = [after_middleware res]\<rparr>"
          using Some False NotFound ins
          by (simp add: step_def proc_step_def select_by_event_id_def)
        then show ?thesis
          using Some False NotFound ins
          by (simp only: solo_after_middleware)
            (simp add: webhook_callback_def idempotencyMiddleware_def sel
              select_by_event_id_def split: mw_result.splits)
      qed
    qed
  qed
qed

subsection \<open>The rate limiter\<close>

lemma ceil_div_ge: "0 < b \<Longrightarrow> a \<le> ceil_div a b * b"
proof -
  assume b: "0 < b"
  have "(- a) div b * b + (- a) mod b = - a" by simp
  moreover have "0 \<le> (- a) mod b" using b by simp
  ultimately have "(- a) div b * b \<le> - a" by linarith
  then show ?thesis by (simp add: ceil_div_def)
qed

lemma ceil_div_pos: 
  assumes "0 < a" and "0 < b" shows "0 < ceil_div a b"
proof (rule ccontr)
  assume "\<not> 0 < ceil_div a b"
  then have "ceil_div a b * b \<le> 0" using assms by (simp add: mult_le_0_iff)
  with ceil_div_ge [OF assms(2), of a] assms(1) show False by linarith
qed

lemma zAdd_keeps: "(m, m) \<in> set z \<Longrightarrow> (m, m) \<in> set (zAdd z t t)"
  by (force simp: zAdd_def)

lemma zAdd_has: "(t, t) \<in> set (zAdd z t t)"
  by (force simp: zAdd_def)

lemma rl_exec_store:
  assumes "0 < windowMs opts"
  shows "fst (rl_exec opts t st k) k =
     Some \<lparr>members = zAdd (zRemRangeByScore (live t st k) 0 (t - windowMs opts)) t t,
           expires_at = Some (t + ceil_div (windowMs opts) 1000 * 1000)\<rparr>"
  using ceil_div_pos [OF assms, of 1000]
  by (simp add: rl_exec_def expire_def Let_def)

lemma rl_exec_count:
  assumes "0 < windowMs opts"
  shows "snd (rl_exec opts t st k) = zCard (slots (fst (rl_exec opts t st k)) k)"
  using rl_exec_store [OF assms, of t st k]
  by (simp add: slots_def) (simp add: rl_exec_def Let_def)

lemma rl_exec_adds:
  assumes "0 < windowMs opts"
  shows "occupied opts t (fst (rl_exec opts t st k)) k"
  using rl_exec_store [OF assms, of t st k] ceil_div_ge [of 1000 "windowMs opts"]
  by (simp add: occupied_def zAdd_has)

lemma rl_exec_keeps:
  assumes W: "0 < windowMs opts" and occ: "occupied opts now st k"
    and t: "now \<le> t" "t < now + windowMs opts"
  shows "occupied opts now (fst (rl_exec opts t st k)) k"
proof -
  from occ obtain e x where e: "st k = Some e" "(now, now) \<in> set (members e)"
    "expires_at e = Some x" "now + windowMs opts \<le> x"
    by (auto simp: occupied_def split: option.splits)
  have "live t st k = members e" using e t by (simp add: live_def)
  moreover have "(now, now) \<in> set (zRemRangeByScore (members e) 0 (t - windowMs opts))"
    using e t by (simp add: zRemRangeByScore_def)
  ultimately have "(now, now) \<in> set (zAdd (zRemRangeByScore (live t st k) 0 (t - windowMs opts)) t t)"
    by (simp add: zAdd_keeps)
  then show ?thesis
    using rl_exec_store [OF W, of t st k] ceil_div_ge [of 1000 "windowMs opts"] t
    by (simp add: occupied_def)
qed

lemma rateLimiter_store: "fst (rateLimiter opts False t st c) = fst (rl_exec opts t st (keyPrefix opts @ clientId c))"
  by (simp add: rateLimiter_def Let_def split: prod.split)

lemma rl_run_Cons:
  "fst (rl_run opts c st (t # ts)) = fst (rl_run opts c (fst (rateLimiter opts False t st c)) ts)"
  "snd (rl_run opts c st (t # ts)) =
     snd (rateLimiter opts False t st c) # snd (rl_run opts c (fst (rateLimiter opts False t st c)) ts)"
  by (simp_all split: prod.split)

lemma rl_run_keeps:
  assumes W: "0 < windowMs opts"
  shows "occupied opts now st (keyPrefix opts @ clientId c) \<Longrightarrow>
     \<forall>t\<in>set ts. now \<le> t \<and> t < now + windowMs opts \<Longrightarrow>
     occupied opts now (fst (rl_run opts c st ts)) (keyPrefix opts @ clientId c)"
proof (induction ts arbitrary: st)
  case Nil
  then show ?case by simp
next
  case (Cons t ts)
  have "occupied opts now (fst (rateLimiter opts False t st c)) (keyPrefix opts @ clientId c)"
    using Cons.prems rl_exec_keeps [OF W] by (simp add: rateLimiter_store)
  then have "occupied opts now (fst (rl_run opts c (fst (rateLimiter opts False t st c)) ts))
      (keyPrefix opts @ clientId c)"
    using Cons.IH Cons.prems by simp
  then show ?case by (simp only: rl_run_Cons)
qed

lemma rateLimiter_decide:
  "rateLimiter opts False t st c =
     (fst (rl_exec opts t st (keyPrefix opts @ clientId c)),
      decide opts t (snd (rl_exec opts t st (keyPrefix opts @ clientId c))))"
  by (simp add: rateLimiter_def decide_def Let_def split: prod.split)

lemma zAdd_same:
  assumes "set z = (\<lambda>s. (s, s)) ` S" and "t \<in> S"
  shows "zAdd z t t = z"
proof -
  have "map (\<lambda>(m', sc'). if m' = t then (m', t) else (m', sc')) z = z"
    using assms by (intro map_idI) auto
  moreover have "t \<in> fst ` set z" using assms by (simp add: image_image)
  ultimately show ?thesis by (simp add: zAdd_def)
qed

lemma zAdd_new:
  assumes "set z = (\<lambda>s. (s, s)) ` S" and "t \<notin> S"
  shows "zAdd z t t = z @ [(t, t)]"
proof -
  have "t \<notin> fst ` set z" using assms by (simp add: image_image)
  then show ?thesis by (simp add: zAdd_def)
qed

lemma zAdd_tracked:
  assumes "distinct (map fst z)" and "set z = (\<lambda>s. (s, s)) ` S"
  shows "distinct (map fst (zAdd z t t)) \<and> set (zAdd z t t) = (\<lambda>s. (s, s)) ` insert t S"
proof (cases "t \<in> S")
  case True
  then show ?thesis using assms zAdd_same [OF assms(2) True] by (simp add: insert_absorb)
next
  case False
  then show ?thesis using assms zAdd_new [OF assms(2) False] by (auto simp: image_image)
qed

lemma length_tracked:
  assumes "distinct (map fst z)" and "set z = (\<lambda>s. (s, s)) ` S"
  shows "length z = card S"
proof -
  have "fst ` set z = S" using assms(2) by (simp add: image_image)
  then have "card S = card (set (map fst z))" by simp
  also have "\<dots> = length (map fst z)" using assms(1) by (rule distinct_card)
  finally show ?thesis by simp
qed

lemma live_tracked:
  assumes "tracked opts a st k S" and "t < a + windowMs opts"
  shows "distinct (map fst (live t st k)) \<and> set (live t st k) = (\<lambda>s. (s, s)) ` S"
  using assms by (auto simp: tracked_def live_def split: option.splits)

lemma prune_nothing:
  assumes "set z = (\<lambda>s. (s, s)) ` S" and "\<forall>s\<in>S. a \<le> s" and "t < a + w"
  shows "zRemRangeByScore z 0 (t - w) = z"
  unfolding zRemRangeByScore_def using assms by (intro filter_True) force

lemma rl_exec_tracked:
  assumes W: "0 < windowMs opts" and tr: "tracked opts a st k S" and S: "\<forall>s\<in>S. a \<le> s"
    and t: "a \<le> t" "t < a + windowMs opts"
  shows "tracked opts a (fst (rl_exec opts t st k)) k (insert t S)
       \<and> snd (rl_exec opts t st k) = int (card (insert t S))"
proof -
  let ?z = "live t st k"
  from live_tracked [OF tr t(2)] have z: "distinct (map fst ?z)" "set ?z = (\<lambda>s. (s, s)) ` S"
    by simp_all
  have p: "zRemRangeByScore ?z 0 (t - windowMs opts) = ?z"
    using prune_nothing [OF z(2) S t(2)] .
  from zAdd_tracked [OF z] have a: "distinct (map fst (zAdd ?z t t))"
    "set (zAdd ?z t t) = (\<lambda>s. (s, s)) ` insert t S" by simp_all
  have "snd (rl_exec opts t st k) = int (length (zAdd ?z t t))"
    by (simp add: rl_exec_def Let_def p zCard_def)
  then have c: "snd (rl_exec opts t st k) = int (card (insert t S))"
    using length_tracked [OF a] by simp
  have "tracked opts a (fst (rl_exec opts t st k)) k (insert t S)"
    using rl_exec_store [OF W, of t st k] a p ceil_div_ge [of 1000 "windowMs opts"] t
    by (simp add: tracked_def)
  with c show ?thesis by simp
qed

lemma rl_run_expected:
  assumes W: "0 < windowMs opts"
  shows "tracked opts a st (keyPrefix opts @ clientId c) S \<Longrightarrow> \<forall>s\<in>S. a \<le> s \<Longrightarrow>
     \<forall>t\<in>set ts. a \<le> t \<and> t < a + windowMs opts \<Longrightarrow>
     snd (rl_run opts c st ts) = expected opts S ts"
proof (induction ts arbitrary: st S)
  case Nil
  then show ?case by simp
next
  case (Cons t ts)
  let ?k = "keyPrefix opts @ clientId c"
  have t: "a \<le> t" "t < a + windowMs opts" using Cons.prems(3) by simp_all
  note step = rl_exec_tracked [OF W Cons.prems(1) Cons.prems(2) t]
  have "snd (rl_run opts c (fst (rl_exec opts t st ?k)) ts) = expected opts (insert t S) ts"
    using Cons.IH [of "fst (rl_exec opts t st ?k)" "insert t S"] step Cons.prems t by simp
  then show ?case using step by (simp add: rl_run_Cons rateLimiter_decide del: rl_run.simps)
qed

lemma tracked_empty: "tracked opts a empty_store k {}"
  by (simp add: tracked_def empty_store_def)

lemma expected_append:
  "expected opts S (xs @ [t]) =
     expected opts S xs @ [decide opts t (int (card (insert t (S \<union> set xs))))]"
  by (induction xs arbitrary: S) (simp_all add: insert_commute)

lemma rl_run_last:
  assumes W: "0 < windowMs opts"
    and ts: "\<forall>s\<in>set (xs @ [t]). a \<le> s \<and> s < a + windowMs opts"
  shows "last (snd (rl_run opts c empty_store (xs @ [t]))) =
           decide opts t (int (card (insert t (set xs))))"
proof -
  have "snd (rl_run opts c empty_store (xs @ [t])) = expected opts {} (xs @ [t])"
    using rl_run_expected [OF W tracked_empty _ ts] by simp
  then show ?thesis by (simp add: expected_append)
qed

lemma hundred_stamps:
  "card (insert (t0 + 100) (set (map (\<lambda>i. t0 + int i) [1..<101]))) = 100"
proof -
  have "t0 + 100 \<in> set (map (\<lambda>i. t0 + int i) [1..<101])"
    by (simp add: image_iff)
  then have "insert (t0 + 100) (set (map (\<lambda>i. t0 + int i) [1..<101])) =
      set (map (\<lambda>i. t0 + int i) [1..<101])"
    by (rule insert_absorb)
  moreover have "card (set (map (\<lambda>i. t0 + int i) [1..<101])) =
      length (map (\<lambda>i. t0 + int i) [1..<101])"
    by (rule distinct_card) (simp add: distinct_map inj_on_def)
  ultimately show ?thesis by simp
qed

text \<open>
  Claim C7. The limiter prunes, inserts, counts and refreshes the expiry as stated, and it
  rejects exactly when the count exceeds the maximum (\<open>rl_exec_store\<close>,
  \<open>rateLimiter_decide\<close>); with pairwise distinct timestamps the request after
  \<open>maxRequests\<close> others in the window is rejected (\<open>distinct_requests_limited\<close>). But the
  set holds one member per millisecond: with the default limit of 100 per 15 minutes, 100
  requests at the instants \<open>t0 + 1\<close> to \<open>t0 + 100\<close> followed by a 101st at the instant
  \<open>t0 + 100\<close> leave 100 entries, and the 101st request is allowed, with no quota remaining.
\<close>

theorem same_millisecond_request_not_counted:
  "last (snd (rl_run (rateLimiterOptions None None None) c empty_store
                (map (\<lambda>i. t0 + int i) [1..<101] @ [t0 + 100]))) =
     Allowed \<lparr>x_limit = 100, x_remaining = 0, x_reset = t0 + 100 + 15 * 60 * 1000\<rparr>"
proof -
  have W: "0 < windowMs (rateLimiterOptions None None None)"
    by (simp add: rateLimiterOptions_def)
  have ts: "\<forall>s\<in>set (map (\<lambda>i. t0 + int i) [1..<101] @ [t0 + 100]).
      t0 \<le> s \<and> s < t0 + windowMs (rateLimiterOptions None None None)"
    by (auto simp: rateLimiterOptions_def)
  show ?thesis
    using rl_run_last [OF W ts, of c]
    by (simp only: hundred_stamps) (simp add: decide_def rateLimiterOptions_def)
qed

lemma distinct_requests_limited:
  assumes W: "0 < windowMs opts" and m: "0 \<le> maxRequests opts"
    and ts: "\<forall>s\<in>set (xs @ [t]). a \<le> s \<and> s < a + windowMs opts"
    and d: "distinct (xs @ [t])" and n: "int (length xs) = maxRequests opts"
  shows "last (snd (rl_run opts c empty_store (xs @ [t]))) =
           Rejected \<lparr>x_limit = maxRequests opts, x_remaining = 0,
                      x_reset = t + windowMs opts\<rparr> (ceil_div (windowMs opts) 1000)"
proof -
  have "card (insert t (set xs)) = Suc (length xs)"
    using d by (simp add: distinct_card)
  then show ?thesis
    using rl_run_last [OF W ts, of c] n by (simp add: decide_def)
qed

lemma occupied_slot: "occupied opts now st k \<Longrightarrow> (now, now) \<in> set (slots st k)"
  by (simp add: occupied_def slots_def split: option.splits)

text \<open>
  Claim C8. When the store rejects the transaction, the limiter logs the error and calls
  \<^verbatim>\<open>next()\<close>: the request goes on, whatever the count would have been, and nothing is
  answered in its place.
\<close>

theorem rate_limiter_fails_open:
  "rateLimiter opts True now st c = (st, FailedOpen ''Rate limiter error:'')
   \<and> proceeds (snd (rateLimiter opts True now st c))
   \<and> logged (snd (rateLimiter opts True now st c)) = [''Rate limiter error:'']"
  by (simp add: rateLimiter_def proceeds_def logged_def)

text \<open>
  Claim C10. With a positive window, every admission check that reaches the store leaves
  the entry of its own instant in the client's set, and its answer is the decision for the
  count of the set with that entry in it; this holds for a rejected request as for an allowed
  one, since nothing is removed afterwards. The entry is still stored after any further
  checks of the same client made less than one window later, and the count any such later
  check decides on is the size of a set that contains it.
\<close>

theorem rejected_request_keeps_its_slot:
  assumes "0 < windowMs opts" and "\<forall>t\<in>set ts. now \<le> t \<and> t < now + windowMs opts"
  shows "(now, now) \<in> set (slots (fst (rateLimiter opts False now st c)) (keyPrefix opts @ clientId c))
    \<and> snd (rateLimiter opts False now st c) =
        decide opts now
          (zCard (slots (fst (rateLimiter opts False now st c)) (keyPrefix opts @ clientId c)))
    \<and> (now, now) \<in> set (slots (fst (rl_run opts c (fst (rateLimiter opts False now st c)) ts))
                        (keyPrefix opts @ clientId c))
    \<and> (\<forall>t. now \<le> t \<and> t < now + windowMs opts \<longrightarrow>
          (now, now) \<in> set (slots (fst (rateLimiter opts False t
                (fst (rl_run opts c (fst (rateLimiter opts False now st c)) ts)) c))
              (keyPrefix opts @ clientId c))
          \<and> snd (rateLimiter opts False t
                (fst (rl_run opts c (fst (rateLimiter opts False now st c)) ts)) c) =
              decide opts t (zCard (slots (fst (rateLimiter opts False t
                (fst (rl_run opts c (fst (rateLimiter opts False now st c)) ts)) c))
              (keyPrefix opts @ clientId c))))"
proof -
  let ?k = "keyPrefix opts @ clientId c"
  let ?st1 = "fst (rateLimiter opts False now st c)"
  let ?st2 = "fst (rl_run opts c ?st1 ts)"
  note W = assms(1)
  have o1: "occupied opts now ?st1 ?k"
    using rl_exec_adds [OF W] by (simp add: rateLimiter_store)
  have d: "snd (rateLimiter opts False t s c) =
      decide opts t (zCard (slots (fst (rateLimiter opts False t s c)) ?k))" for t s
    using rl_exec_count [OF W, of t s ?k] by (simp add: rateLimiter_decide)
  have o2: "occupied opts now ?st2 ?k"
    using rl_run_keeps [OF W o1 assms(2)] .
  have o3: "occupied opts now (fst (rateLimiter opts False t ?st2 c)) ?k"
    if "now \<le> t \<and> t < now + windowMs opts" for t
    using rl_exec_keeps [OF W o2] that by (simp add: rateLimiter_store)
  show ?thesis
    using occupied_slot [OF o1] occupied_slot [OF o2] occupied_slot [OF o3] d by blast
qed

theorem rejected_request_keeps_its_slot_witness:
  "0 < windowMs one_per_second
   \<and> 5 \<le> (7::int) \<and> 7 < 5 + windowMs one_per_second
   \<and> snd (rateLimiter one_per_second False 5
            (fst (rl_run one_per_second client1 empty_store [0])) client1) =
       Rejected \<lparr>x_limit = 1, x_remaining = 0, x_reset = 1005\<rparr> 1
   \<and> (5, 5) \<in> set (slots (fst (rl_run one_per_second client1
            (fst (rateLimiter one_per_second False 5
               (fst (rl_run one_per_second client1 empty_store [0])) client1)) [7]))
          (keyPrefix one_per_second @ clientId client1))
   \<and> 5 \<le> (8::int) \<and> 8 < 5 + windowMs one_per_second
   \<and> (5, 5) \<in> set (slots (fst (rateLimiter one_per_second False 8
            (fst (rl_run one_per_second client1
               (fst (rateLimiter one_per_second False 5
                  (fst (rl_run one_per_second client1 empty_store [0])) client1)) [7]))
            client1))
          (keyPrefix one_per_second @ clientId client1))"
proof -
  have W: "0 < windowMs one_per_second" by (simp add: one_per_second_def)
  have t8: "5 \<le> (8::int) \<and> 8 < 5 + windowMs one_per_second"
    by (simp add: one_per_second_def)
  have ts: "\<forall>t\<in>set [7]. (5::int) \<le> t \<and> t < 5 + windowMs one_per_second"
    by (simp add: one_per_second_def)
  have ts2: "\<forall>s\<in>set ([0] @ [5]). (0::int) \<le> s \<and> s < 0 + windowMs one_per_second"
    by (simp add: one_per_second_def)
  have "last (snd (rl_run one_per_second client1 empty_store ([0] @ [5]))) =
      Rejected \<lparr>x_limit = 1, x_remaining = 0, x_reset = 1005\<rparr> 1"
    using rl_run_last [OF W ts2, of client1]
    by (simp add: decide_def one_per_second_def ceil_div_def)
  then have rej: "snd (rateLimiter one_per_second False 5
            (fst (rl_run one_per_second client1 empty_store [0])) client1) =
       Rejected \<lparr>x_limit = 1, x_remaining = 0, x_reset = 1005\<rparr> 1"
    by (simp add: rl_run_Cons del: rl_run.simps) (simp split: prod.splits)
  from rejected_request_keeps_its_slot [OF W ts,
      of "fst (rl_run one_per_second client1 empty_store [0])" client1] W ts rej t8
  show ?thesis by simp
qed

subsection \<open>The circuit breaker\<close>

lemmas cb_defs = execute_def gate_def settle_def getState_def setState_def recordSuccess_def
  live_failures_def recordFailure_def getFailureCount_def cb_open_def cb_close_def
  canAttemptReset_def ceil_div_def

lemma default_breaker_simps:
  "default_breaker = \<lparr>cb_name = ''fakestoreapi'', failureThreshold = 5, resetTimeout = 60000,
      monitoringPeriod = 120000\<rparr>"
  by (simp add: default_breaker_def CircuitBreaker_def or_default_def)

lemma outage_opens:
  "cb_run default_breaker fresh_store outage =
     \<lparr>stateKey = Some OPEN, failureKey = Some (5, Some 120004), lastFailureKey = Some 4\<rparr>"
  by (simp add: outage_def fresh_store_def default_breaker_simps cb_defs Let_def)

lemma expired_trial_half_open:
  "cb_run default_breaker fresh_store expired_trial =
     \<lparr>stateKey = Some HALF_OPEN, failureKey = Some (1, Some 250001),
      lastFailureKey = Some 130001\<rparr>"
  by (simp add: expired_trial_def outage_def fresh_store_def default_breaker_simps cb_defs Let_def)

text \<open>What a failure leaves in the store, and that nothing holds back a call in HALF\_OPEN.\<close>

lemma recordFailure_store:
  assumes "0 < monitoringPeriod cb"
  shows "recordFailure cb t1 s =
     \<lparr>stateKey = stateKey s,
      failureKey = Some (getFailureCount t1 s + 1,
                         Some (t1 + ceil_div (monitoringPeriod cb) 1000 * 1000)),
      lastFailureKey = Some t1\<rparr>"
  using ceil_div_pos [OF assms, of 1000]
  by (simp add: recordFailure_def getFailureCount_def live_failures_def Let_def
      split: option.splits prod.splits)

lemma recordFailure_count:
  assumes "0 < monitoringPeriod cb"
  shows "getFailureCount t1 (recordFailure cb t1 s) = getFailureCount t1 s + 1"
  using ceil_div_pos [OF assms, of 1000]
  by (simp add: recordFailure_store [OF assms] getFailureCount_def [of t1 "\<lparr>stateKey = _, failureKey = _, lastFailureKey = _\<rparr>"]
      live_failures_def)

lemma settle_throws:
  assumes "0 < monitoringPeriod cb"
  shows "settle cb st t1 s (Throws e) =
     (\<lparr>stateKey = (if failureThreshold cb \<le> getFailureCount t1 s + 1 then Some OPEN
                    else stateKey s),
       failureKey = Some (getFailureCount t1 s + 1,
                          Some (t1 + ceil_div (monitoringPeriod cb) 1000 * 1000)),
       lastFailureKey = Some t1\<rparr>,
      Inl (OperationError e))"
  by (simp add: settle_def Let_def recordFailure_count [OF assms] cb_open_def setState_def)
    (simp add: recordFailure_store [OF assms])

lemma half_open_passes:
  "stateKey s = Some HALF_OPEN \<Longrightarrow> cb_calls (execute cb t0 a t1 s) = 1"
  by (simp add: execute_def gate_def getState_def Let_def split: prod.splits)

lemma count_ignores_state: "getFailureCount t (s\<lparr>stateKey := x\<rparr>) = getFailureCount t s"
  by (simp add: getFailureCount_def live_failures_def)

text \<open>
  Claim C5, as the code has it. A call of \<^verbatim>\<open>execute\<close> that finds the stored state OPEN and
  a recorded last-failure time. When less than the reset timeout has passed since then, the
  call fails with the circuit-open error, the operation is not called and the store is
  unchanged. When at least the reset timeout has passed, the stored state is HALF\_OPEN when
  the operation is called and the call is let through; the store it leaves is stated for either
  outcome, as the code computes it (on failure the counter is one more, the last-failure time
  is the instant of the failure, and the state is OPEN when the new count has reached the
  threshold, HALF\_OPEN otherwise; on success the counter is deleted and HALF\_OPEN is still
  stored, not CLOSED, which is the slip described further below). The call
  is not the only one let through: any call that arrives while HALF\_OPEN is stored, also
  while the first one's operation is still running, is let through to its operation as well.
\<close>

theorem open_circuit_gate:
  assumes "stateKey s = Some OPEN" and "lastFailureKey s = Some lastFailure"
  shows "(t0 - lastFailure < resetTimeout cb \<longrightarrow>
            execute cb t0 (a :: 'a attempt) t1 s =
              \<lparr>cb_after = s, cb_calls = 0, cb_answer = Inl (CircuitOpen (cb_name cb))\<rparr>)
       \<and> (resetTimeout cb \<le> t0 - lastFailure \<longrightarrow>
            gate cb t0 s = Inr (s\<lparr>stateKey := Some HALF_OPEN\<rparr>)
            \<and> (\<forall>v. a = Returns v \<longrightarrow>
                 execute cb t0 a t1 s =
                   \<lparr>cb_after = s\<lparr>stateKey := Some HALF_OPEN, failureKey := None\<rparr>,
                    cb_calls = 1, cb_answer = Inr v\<rparr>)
            \<and> (\<forall>e. a = Throws e \<and> 0 < monitoringPeriod cb \<longrightarrow>
                 execute cb t0 a t1 s =
                   \<lparr>cb_after =
                      \<lparr>stateKey = Some (if failureThreshold cb \<le> getFailureCount t1 s + 1
                                        then OPEN else HALF_OPEN),
                       failureKey = Some (getFailureCount t1 s + 1,
                                     Some (t1 + ceil_div (monitoringPeriod cb) 1000 * 1000)),
                       lastFailureKey = Some t1\<rparr>,
                    cb_calls = 1, cb_answer = Inl (OperationError e)\<rparr>)
            \<and> (\<forall>t0' a' t1'. cb_calls (execute cb t0' (a' :: 'a attempt) t1'
                     (s\<lparr>stateKey := Some HALF_OPEN\<rparr>)) = 1))"
proof (intro conjI impI allI)
  assume "t0 - lastFailure < resetTimeout cb"
  then show "execute cb t0 a t1 s =
      \<lparr>cb_after = s, cb_calls = 0, cb_answer = Inl (CircuitOpen (cb_name cb))\<rparr>"
    using assms by (simp add: execute_def gate_def getState_def canAttemptReset_def Let_def)
next
  assume late: "resetTimeout cb \<le> t0 - lastFailure"
  then show g: "gate cb t0 s = Inr (s\<lparr>stateKey := Some HALF_OPEN\<rparr>)"
    using assms by (simp add: gate_def getState_def canAttemptReset_def setState_def)
  show "execute cb t0 a t1 s =
      \<lparr>cb_after = s\<lparr>stateKey := Some HALF_OPEN, failureKey := None\<rparr>,
       cb_calls = 1, cb_answer = Inr v\<rparr>" if "a = Returns v" for v
    using assms that g
    by (simp add: execute_def getState_def settle_def recordSuccess_def Let_def)
  show "execute cb t0 a t1 s =
      \<lparr>cb_after =
         \<lparr>stateKey = Some (if failureThreshold cb \<le> getFailureCount t1 s + 1
                           then OPEN else HALF_OPEN),
          failureKey = Some (getFailureCount t1 s + 1,
                        Some (t1 + ceil_div (monitoringPeriod cb) 1000 * 1000)),
          lastFailureKey = Some t1\<rparr>,
       cb_calls = 1, cb_answer = Inl (OperationError e)\<rparr>"
    if "a = Throws e \<and> 0 < monitoringPeriod cb" for e
    using assms that g
    by (simp add: execute_def getState_def Let_def settle_throws count_ignores_state)
  show "cb_calls (execute cb t0' a' t1' (s\<lparr>stateKey := Some HALF_OPEN\<rparr>)) = 1"
    for t0' t1' and a' :: "'a attempt"
    by (rule half_open_passes) simp
qed

text \<open>
  Claim C5 as stated fails: the call that moves the state to HALF\_OPEN is not the only one
  let through. After five failures the default breaker is OPEN. A call at 70 s moves it to
  HALF\_OPEN and calls its operation; a second call arriving 1 ms later, on the store the
  first one's gate has left, calls its operation too. And when the call made after the counter
  has expired fails, the state stays HALF\_OPEN and the call 10 ms later is let through again.
\<close>

theorem second_call_is_let_through:
  "stateKey (cb_run default_breaker fresh_store outage) = Some OPEN
   \<and> gate default_breaker 70000 (cb_run default_breaker fresh_store outage) =
       Inr \<lparr>stateKey = Some HALF_OPEN, failureKey = Some (5, Some 120004),
            lastFailureKey = Some 4\<rparr>
   \<and> cb_calls (execute default_breaker 70000 (Returns ()) 70500
        (cb_run default_breaker fresh_store outage)) = 1
   \<and> cb_calls (execute default_breaker 70001 (Returns ()) 70002
        \<lparr>stateKey = Some HALF_OPEN, failureKey = Some (5, Some 120004),
         lastFailureKey = Some 4\<rparr>) = 1
   \<and> stateKey (cb_after (execute default_breaker 130000 (Throws ''down'' :: unit attempt) 130001
        (cb_run default_breaker fresh_store outage))) = Some HALF_OPEN
   \<and> cb_calls (execute default_breaker 130010 (Returns ()) 130011
        (cb_after (execute default_breaker 130000 (Throws ''down'' :: unit attempt) 130001
           (cb_run default_breaker fresh_store outage)))) = 1"
  by (simp add: outage_opens) (simp add: default_breaker_simps cb_defs Let_def)

theorem open_circuit_gate_witness:
  "stateKey (cb_run default_breaker fresh_store outage) = Some OPEN
   \<and> lastFailureKey (cb_run default_breaker fresh_store outage) = Some 4
   \<and> 50000 - 4 < resetTimeout default_breaker
   \<and> execute default_breaker 50000 (Returns ()) 50001 (cb_run default_breaker fresh_store outage) =
       \<lparr>cb_after = cb_run default_breaker fresh_store outage, cb_calls = 0,
        cb_answer = Inl (CircuitOpen ''fakestoreapi'')\<rparr>
   \<and> resetTimeout default_breaker \<le> 70000 - 4
   \<and> gate default_breaker 70000 (cb_run default_breaker fresh_store outage) =
       Inr \<lparr>stateKey = Some HALF_OPEN, failureKey = Some (5, Some 120004),
            lastFailureKey = Some 4\<rparr>
   \<and> execute default_breaker 70000 (Returns ()) 70001 (cb_run default_breaker fresh_store outage) =
       \<lparr>cb_after = \<lparr>stateKey = Some HALF_OPEN, failureKey = None, lastFailureKey = Some 4\<rparr>,
        cb_calls = 1, cb_answer = Inr ()\<rparr>
   \<and> 0 < monitoringPeriod default_breaker
   \<and> execute default_breaker 70000 (Throws ''down'' :: unit attempt) 70001
        (cb_run default_breaker fresh_store outage) =
       \<lparr>cb_after = \<lparr>stateKey = Some OPEN, failureKey = Some (6, Some 190001),
                     lastFailureKey = Some 70001\<rparr>,
        cb_calls = 1, cb_answer = Inl (OperationError ''down'')\<rparr>
   \<and> cb_calls (execute default_breaker 70002 (Returns ()) 70003
        ((cb_run default_breaker fresh_store outage)\<lparr>stateKey := Some HALF_OPEN\<rparr>)) = 1"
proof -
  let ?S = "cb_run default_breaker fresh_store outage"
  have s: "stateKey ?S = Some OPEN" and l: "lastFailureKey ?S = Some 4"
    by (simp_all add: outage_opens)
  have early: "50000 - 4 < resetTimeout default_breaker"
    and late: "resetTimeout default_breaker \<le> 70000 - 4"
    and m: "0 < monitoringPeriod default_breaker"
    and n: "cb_name default_breaker = ''fakestoreapi''"
    and th: "failureThreshold default_breaker = 5"
    and mp: "monitoringPeriod default_breaker = 120000"
    by (simp_all add: default_breaker_simps)
  have c: "getFailureCount 70001 ?S = 5"
    by (simp only: outage_opens) (simp add: getFailureCount_def live_failures_def)
  have u: "?S\<lparr>stateKey := Some HALF_OPEN\<rparr> =
      \<lparr>stateKey = Some HALF_OPEN, failureKey = Some (5, Some 120004), lastFailureKey = Some 4\<rparr>"
    "?S\<lparr>stateKey := Some HALF_OPEN, failureKey := None\<rparr> =
      \<lparr>stateKey = Some HALF_OPEN, failureKey = None, lastFailureKey = Some 4\<rparr>"
    by (simp_all add: outage_opens)
  note a1 = open_circuit_gate [OF s l, of 50000 default_breaker "Returns ()" 50001]
  note a2 = open_circuit_gate [OF s l, of 70000 default_breaker "Returns ()" 70001]
  note a3 = open_circuit_gate [OF s l, of 70000 default_breaker "Throws ''down'' :: unit attempt" 70001]
  have 1: "execute default_breaker 50000 (Returns ()) 50001 ?S =
       \<lparr>cb_after = ?S, cb_calls = 0, cb_answer = Inl (CircuitOpen ''fakestoreapi'')\<rparr>"
    using a1 early n by simp
  have 2: "gate default_breaker 70000 ?S =
       Inr \<lparr>stateKey = Some HALF_OPEN, failureKey = Some (5, Some 120004),
            lastFailureKey = Some 4\<rparr>"
    using a2 late u by simp
  have 3: "execute default_breaker 70000 (Returns ()) 70001 ?S =
       \<lparr>cb_after = \<lparr>stateKey = Some HALF_OPEN, failureKey = None, lastFailureKey = Some 4\<rparr>,
        cb_calls = 1, cb_answer = Inr ()\<rparr>"
    using a2 late u by simp
  have 4: "execute default_breaker 70000 (Throws ''down'' :: unit attempt) 70001 ?S =
       \<lparr>cb_after = \<lparr>stateKey = Some OPEN, failureKey = Some (6, Some 190001),
                     lastFailureKey = Some 70001\<rparr>,
        cb_calls = 1, cb_answer = Inl (OperationError ''down'')\<rparr>"
    using a3 late m c th mp by (simp add: ceil_div_def)
  have 5: "cb_calls (execute default_breaker 70002 (Returns ()) 70003
        (?S\<lparr>stateKey := Some HALF_OPEN\<rparr>)) = 1"
    using a2 late by blast
  from s l early late m 1 2 3 4 5 show ?thesis by blast
qed

text \<open>
  Claim C6, as the code has it. A trial call is a call made while the breaker is HALF\_OPEN:
  the call that has just moved the state from OPEN to HALF\_OPEN, or a call that finds
  HALF\_OPEN stored. It calls the operation. When the operation succeeds, the failure counter
  is deleted, and for a call that found HALF\_OPEN stored the state becomes CLOSED. When it
  fails (monitoring period positive), the counter is one more than before and the last-failure
  time is the instant of the failure; the state becomes OPEN exactly when the new count has
  reached the threshold, and otherwise is HALF\_OPEN, in which case the next call, whenever
  it comes, is let through to its operation.
\<close>

theorem trial_call_outcome:
  assumes "stateKey s = Some HALF_OPEN \<or> (stateKey s = Some OPEN \<and> canAttemptReset cb t0 s)"
  shows "cb_calls (execute cb t0 (a :: 'a attempt) t1 s) = 1
     \<and> (\<forall>v. a = Returns v \<longrightarrow>
          failureKey (cb_after (execute cb t0 a t1 s)) = None
          \<and> lastFailureKey (cb_after (execute cb t0 a t1 s)) = lastFailureKey s
          \<and> cb_answer (execute cb t0 a t1 s) = Inr v
          \<and> (stateKey s = Some HALF_OPEN \<longrightarrow>
                stateKey (cb_after (execute cb t0 a t1 s)) = Some CLOSED))
     \<and> (\<forall>e. a = Throws e \<and> 0 < monitoringPeriod cb \<longrightarrow>
          execute cb t0 a t1 s =
            \<lparr>cb_after =
               \<lparr>stateKey = Some (if failureThreshold cb \<le> getFailureCount t1 s + 1
                                 then OPEN else HALF_OPEN),
                failureKey = Some (getFailureCount t1 s + 1,
                              Some (t1 + ceil_div (monitoringPeriod cb) 1000 * 1000)),
                lastFailureKey = Some t1\<rparr>,
             cb_calls = 1, cb_answer = Inl (OperationError e)\<rparr>
          \<and> (getFailureCount t1 s + 1 < failureThreshold cb \<longrightarrow>
               (\<forall>t0' a' t1'. cb_calls (execute cb t0' (a' :: 'a attempt) t1'
                    (cb_after (execute cb t0 a t1 s))) = 1)))"
proof -
  obtain s1 where g: "gate cb t0 s = Inr s1" and s1: "s1 = s\<lparr>stateKey := Some HALF_OPEN\<rparr>"
    using assms
    by (auto simp: gate_def getState_def setState_def cb_store.equality)
  have ex: "execute cb t0 x t1 s =
      \<lparr>cb_after = fst (settle cb (getState s) t1 s1 x), cb_calls = 1,
       cb_answer = snd (settle cb (getState s) t1 s1 x)\<rparr>" for x :: "'a attempt"
    using g by (simp add: execute_def Let_def split: prod.splits)
  have 1: "cb_calls (execute cb t0 a t1 s) = 1" by (simp add: ex)
  have 2: "failureKey (cb_after (execute cb t0 a t1 s)) = None
          \<and> lastFailureKey (cb_after (execute cb t0 a t1 s)) = lastFailureKey s
          \<and> cb_answer (execute cb t0 a t1 s) = Inr v
          \<and> (stateKey s = Some HALF_OPEN \<longrightarrow>
                stateKey (cb_after (execute cb t0 a t1 s)) = Some CLOSED)"
    if "a = Returns v" for v
    using that
    by (auto simp: ex s1 settle_def getState_def cb_close_def recordSuccess_def setState_def)
  have 3: "execute cb t0 a t1 s =
            \<lparr>cb_after =
               \<lparr>stateKey = Some (if failureThreshold cb \<le> getFailureCount t1 s + 1
                                 then OPEN else HALF_OPEN),
                failureKey = Some (getFailureCount t1 s + 1,
                              Some (t1 + ceil_div (monitoringPeriod cb) 1000 * 1000)),
                lastFailureKey = Some t1\<rparr>,
             cb_calls = 1, cb_answer = Inl (OperationError e)\<rparr>
          \<and> (getFailureCount t1 s + 1 < failureThreshold cb \<longrightarrow>
               (\<forall>t0' a' t1'. cb_calls (execute cb t0' (a' :: 'a attempt) t1'
                    (cb_after (execute cb t0 a t1 s))) = 1))"
    if h: "a = Throws e \<and> 0 < monitoringPeriod cb" for e
  proof -
    have e: "execute cb t0 a t1 s =
            \<lparr>cb_after =
               \<lparr>stateKey = Some (if failureThreshold cb \<le> getFailureCount t1 s + 1
                                 then OPEN else HALF_OPEN),
                failureKey = Some (getFailureCount t1 s + 1,
                              Some (t1 + ceil_div (monitoringPeriod cb) 1000 * 1000)),
                lastFailureKey = Some t1\<rparr>,
             cb_calls = 1, cb_answer = Inl (OperationError e)\<rparr>"
      using h by (simp add: ex s1 settle_throws count_ignores_state)
    show ?thesis
      by (simp add: e half_open_passes)
  qed
  from 1 2 3 show ?thesis by blast
qed

text \<open>
  The call that moved the state from OPEN to HALF\_OPEN and succeeds does not close the
  breaker: \<^verbatim>\<open>execute\<close> tests \<^verbatim>\<open>state === 'HALF_OPEN'\<close> on the value read on entry, which is
  still OPEN, so it runs \<^verbatim>\<open>recordSuccess\<close> and never reaches \<^verbatim>\<open>close()\<close>. The stored state
  stays HALF\_OPEN until a further call succeeds.
\<close>

lemma trial_success_stays_half_open:
  assumes "stateKey s = Some OPEN" and "canAttemptReset cb t0 s"
  shows "execute cb t0 (Returns v) t1 s =
     \<lparr>cb_after = s\<lparr>stateKey := Some HALF_OPEN, failureKey := None\<rparr>, cb_calls = 1,
      cb_answer = Inr v\<rparr>"
  using assms
  by (simp add: execute_def gate_def getState_def setState_def settle_def recordSuccess_def
      Let_def)

text \<open>
  Claim C6 as stated fails. After five failures the default breaker is OPEN; the counter
  expires with the monitoring period. The trial call at 130 s, which moves the state to
  HALF\_OPEN, fails: the count is 1 and the state stays HALF\_OPEN. The call at 130010 ms
  finds HALF\_OPEN, is let through and fails: the count becomes 2, the state stays
  HALF\_OPEN, and the call 10 ms later is let through to its operation. After neither failed
  trial is the breaker open for subsequent calls.
\<close>

theorem failed_trial_does_not_reopen:
  "stateKey (cb_run default_breaker fresh_store outage) = Some OPEN
   \<and> canAttemptReset default_breaker 130000 (cb_run default_breaker fresh_store outage)
   \<and> cb_run default_breaker fresh_store expired_trial =
       cb_after (execute default_breaker 130000 (Throws ''down'' :: unit attempt) 130001
         (cb_run default_breaker fresh_store outage))
   \<and> stateKey (cb_run default_breaker fresh_store expired_trial) = Some HALF_OPEN
   \<and> getFailureCount 130001 (cb_run default_breaker fresh_store expired_trial) = 1
   \<and> cb_calls (execute default_breaker 130010 (Throws ''down'' :: unit attempt) 130011
        (cb_run default_breaker fresh_store expired_trial)) = 1
   \<and> getFailureCount 130011
        (cb_after (execute default_breaker 130010 (Throws ''down'' :: unit attempt) 130011
           (cb_run default_breaker fresh_store expired_trial))) = 2
   \<and> stateKey
        (cb_after (execute default_breaker 130010 (Throws ''down'' :: unit attempt) 130011
           (cb_run default_breaker fresh_store expired_trial))) = Some HALF_OPEN
   \<and> cb_calls (execute default_breaker 130020 (Returns ()) 130021
        (cb_after (execute default_breaker 130010 (Throws ''down'' :: unit attempt) 130011
           (cb_run default_breaker fresh_store expired_trial)))) = 1"
proof -
  have 1: "cb_run default_breaker fresh_store expired_trial =
       cb_after (execute default_breaker 130000 (Throws ''down'' :: unit attempt) 130001
         (cb_run default_breaker fresh_store outage))"
    by (simp only: expired_trial_half_open outage_opens)
      (simp add: default_breaker_simps cb_defs Let_def)
  have 2: "stateKey (cb_run default_breaker fresh_store outage) = Some OPEN
      \<and> canAttemptReset default_breaker 130000 (cb_run default_breaker fresh_store outage)"
    by (simp only: outage_opens) (simp add: canAttemptReset_def default_breaker_simps)
  have 3: "stateKey (cb_run default_breaker fresh_store expired_trial) = Some HALF_OPEN
   \<and> getFailureCount 130001 (cb_run default_breaker fresh_store expired_trial) = 1
   \<and> cb_calls (execute default_breaker 130010 (Throws ''down'' :: unit attempt) 130011
        (cb_run default_breaker fresh_store expired_trial)) = 1
   \<and> getFailureCount 130011
        (cb_after (execute default_breaker 130010 (Throws ''down'' :: unit attempt) 130011
           (cb_run default_breaker fresh_store expired_trial))) = 2
   \<and> stateKey
        (cb_after (execute default_breaker 130010 (Throws ''down'' :: unit attempt) 130011
           (cb_run default_breaker fresh_store expired_trial))) = Some HALF_OPEN
   \<and> cb_calls (execute default_breaker 130020 (Returns ()) 130021
        (cb_after (execute default_breaker 130010 (Throws ''down'' :: unit attempt) 130011
           (cb_run default_breaker fresh_store expired_trial)))) = 1"
    by (simp only: expired_trial_half_open) (simp add: default_breaker_simps cb_defs Let_def)
  from 1 2 3 show ?thesis by blast
qed

theorem trial_call_outcome_witness:
  "stateKey (cb_run default_breaker fresh_store expired_trial) = Some HALF_OPEN
   \<and> execute default_breaker 130010 (Returns ()) 130011
        (cb_run default_breaker fresh_store expired_trial) =
       \<lparr>cb_after = \<lparr>stateKey = Some CLOSED, failureKey = None, lastFailureKey = Some 130001\<rparr>,
        cb_calls = 1, cb_answer = Inr ()\<rparr>
   \<and> 0 < monitoringPeriod default_breaker
   \<and> getFailureCount 130011 (cb_run default_breaker fresh_store expired_trial) + 1
        < failureThreshold default_breaker
   \<and> execute default_breaker 130010 (Throws ''down'' :: unit attempt) 130011
        (cb_run default_breaker fresh_store expired_trial) =
       \<lparr>cb_after = \<lparr>stateKey = Some HALF_OPEN, failureKey = Some (2, Some 250011),
                     lastFailureKey = Some 130011\<rparr>,
        cb_calls = 1, cb_answer = Inl (OperationError ''down'')\<rparr>
   \<and> cb_calls (execute default_breaker 130020 (Returns ()) 130021
        (cb_after (execute default_breaker 130010 (Throws ''down'' :: unit attempt) 130011
           (cb_run default_breaker fresh_store expired_trial)))) = 1
   \<and> stateKey (cb_run default_breaker fresh_store outage) = Some OPEN
   \<and> canAttemptReset default_breaker 70000 (cb_run default_breaker fresh_store outage)
   \<and> cb_calls (execute default_breaker 70000 (Returns ()) 70001
        (cb_run default_breaker fresh_store outage)) = 1
   \<and> failureKey (cb_after (execute default_breaker 70000 (Returns ()) 70001
        (cb_run default_breaker fresh_store outage))) = None
   \<and> execute default_breaker 70000 (Throws ''down'' :: unit attempt) 70001
        (cb_run default_breaker fresh_store outage) =
       \<lparr>cb_after = \<lparr>stateKey = Some OPEN, failureKey = Some (6, Some 190001),
                     lastFailureKey = Some 70001\<rparr>,
        cb_calls = 1, cb_answer = Inl (OperationError ''down'')\<rparr>"
proof -
  let ?H = "cb_run default_breaker fresh_store expired_trial"
  let ?S = "cb_run default_breaker fresh_store outage"
  have h: "stateKey ?H = Some HALF_OPEN"
    by (simp add: expired_trial_half_open)
  have o: "stateKey ?S = Some OPEN" and r: "canAttemptReset default_breaker 70000 ?S"
    by (simp_all only: outage_opens) (simp_all add: canAttemptReset_def default_breaker_simps)
  have m: "0 < monitoringPeriod default_breaker"
    and th: "failureThreshold default_breaker = 5"
    and mp: "monitoringPeriod default_breaker = 120000"
    by (simp_all add: default_breaker_simps)
  have ch: "getFailureCount 130011 ?H = 1"
    by (simp only: expired_trial_half_open) (simp add: getFailureCount_def live_failures_def)
  have cs: "getFailureCount 70001 ?S = 5"
    by (simp only: outage_opens) (simp add: getFailureCount_def live_failures_def)
  have lh: "lastFailureKey ?H = Some 130001"
    by (simp add: expired_trial_half_open)
  note h_ok = trial_call_outcome [OF disjI1 [OF h], of default_breaker 130010 "Returns ()" 130011]
  note h_ko = trial_call_outcome [OF disjI1 [OF h], of default_breaker 130010
      "Throws ''down'' :: unit attempt" 130011]
  note s_ok = trial_call_outcome [OF disjI2 [OF conjI [OF o r]], of "Returns ()" 70001]
  note s_ko = trial_call_outcome [OF disjI2 [OF conjI [OF o r]],
      of "Throws ''down'' :: unit attempt" 70001]
  have 1: "execute default_breaker 130010 (Returns ()) 130011 ?H =
       \<lparr>cb_after = \<lparr>stateKey = Some CLOSED, failureKey = None, lastFailureKey = Some 130001\<rparr>,
        cb_calls = 1, cb_answer = Inr ()\<rparr>"
  proof -
    have "cb_calls (execute default_breaker 130010 (Returns ()) 130011 ?H) = 1"
      "failureKey (cb_after (execute default_breaker 130010 (Returns ()) 130011 ?H)) = None"
      "lastFailureKey (cb_after (execute default_breaker 130010 (Returns ()) 130011 ?H)) =
         Some 130001"
      "cb_answer (execute default_breaker 130010 (Returns ()) 130011 ?H) = Inr ()"
      "stateKey (cb_after (execute default_breaker 130010 (Returns ()) 130011 ?H)) = Some CLOSED"
      using h_ok h lh by simp_all
    then show ?thesis
      by (intro cb_result.equality cb_store.equality) simp_all
  qed
  have 2: "getFailureCount 130011 ?H + 1 < failureThreshold default_breaker"
    using ch th by simp
  have 3: "execute default_breaker 130010 (Throws ''down'' :: unit attempt) 130011 ?H =
       \<lparr>cb_after = \<lparr>stateKey = Some HALF_OPEN, failureKey = Some (2, Some 250011),
                     lastFailureKey = Some 130011\<rparr>,
        cb_calls = 1, cb_answer = Inl (OperationError ''down'')\<rparr>"
    using h_ko m ch th mp by (simp add: ceil_div_def)
  have 4: "cb_calls (execute default_breaker 130020 (Returns ()) 130021
        (cb_after (execute default_breaker 130010 (Throws ''down'' :: unit attempt) 130011 ?H))) = 1"
    using h_ko m 2 by blast
  have 5: "cb_calls (execute default_breaker 70000 (Returns ()) 70001 ?S) = 1"
    "failureKey (cb_after (execute default_breaker 70000 (Returns ()) 70001 ?S)) = None"
    using s_ok by simp_all
  have 6: "execute default_breaker 70000 (Throws ''down'' :: unit attempt) 70001 ?S =
       \<lparr>cb_after = \<lparr>stateKey = Some OPEN, failureKey = Some (6, Some 190001),
                     lastFailureKey = Some 70001\<rparr>,
        cb_calls = 1, cb_answer = Inl (OperationError ''down'')\<rparr>"
    using s_ko m cs th mp by (simp add: ceil_div_def)
  from h 1 m 2 3 4 o r 5 6 show ?thesis by blast
qed

subsection \<open>The wait for the refresh lease\<close>







end
